theory Spec2Isabelle
  imports Complex_Main "HOL-Library.Multiset" "HOL-Library.Sublist"
begin

section \<open>SQL values\<close>

text \<open>
  The program is the PostgreSQL schema \<^verbatim>\<open>supabase/schema.sql\<close> (tables with their
  constraints and generated columns, and the PL/pgSQL functions) and the request pacing of
  \<^verbatim>\<open>polyFetch\<close> in the Polygon module (the module that \<^verbatim>\<open>api/index.js\<close> imports as
  \<^verbatim>\<open>polygon.js\<close>). A table is the list of its rows, a row is a record
  with one field per column, a nullable column has an \<open>option\<close> type (\<open>None\<close> is NULL),
  and a statement that raises returns the error on the left of a sum and no new store.

  A \<^verbatim>\<open>TIMESTAMPTZ\<close> is the number of microseconds since the epoch, so that an
  \<^verbatim>\<open>INTERVAL\<close> of minutes or hours is a multiple of \<open>60000000\<close>.
\<close>

type_synonym timestamptz = int

definition minutes :: "int \<Rightarrow> int" where
  "minutes n = n * 60000000"

definition hours :: "int \<Rightarrow> int" where
  "hours n = n * 3600000000"

definition days :: "int \<Rightarrow> int" where
  "days n = n * 86400000000"

datatype db_error =
    not_null_violation
  | check_violation string
  | numeric_value_out_of_range
  | unique_violation
  | foreign_key_violation

definition smallint_ok :: "int \<Rightarrow> bool" where
  "smallint_ok n = (- 32768 \<le> n \<and> n \<le> 32767)"

text \<open>
  \<^verbatim>\<open>NUMERIC(p,s)\<close>: a value written to the column is rounded to \<open>s\<close> decimals, halves
  away from zero, and refused when the rounded value needs more than \<open>p\<close> digits.
\<close>

definition round_half_away :: "rat \<Rightarrow> int" where
  "round_half_away x = (if 0 \<le> x then \<lfloor>x + 1 / 2\<rfloor> else - \<lfloor>- x + 1 / 2\<rfloor>)"

definition numeric_coerce :: "nat \<Rightarrow> nat \<Rightarrow> rat \<Rightarrow> db_error + rat" where
  "numeric_coerce p s x =
     (let n = round_half_away (x * 10 ^ s)
      in if 10 ^ p \<le> \<bar>n\<bar> then Inl numeric_value_out_of_range
         else Inr (of_int n / 10 ^ s))"

definition numeric_coerce_opt :: "nat \<Rightarrow> nat \<Rightarrow> rat option \<Rightarrow> db_error + rat option" where
  "numeric_coerce_opt p s x =
     (case x of None \<Rightarrow> Inr None
      | Some v \<Rightarrow> (case numeric_coerce p s v of Inl e \<Rightarrow> Inl e | Inr w \<Rightarrow> Inr (Some w)))"

section \<open>Scoring: the three composites\<close>

text \<open>
  Modelled from the spec: the scorer that computes the composites is not part of the
  sources at hand; the schema only stores what it writes (\<^verbatim>\<open>mfses_short\<close>,
  \<^verbatim>\<open>mfses_mid\<close>, \<^verbatim>\<open>mfses_long\<close>) and repeats the formulas in its column comments.
  Each composite is the weighted sum of the six factor scores, the weights in the order
  moat, growth, balance, valuation, sentiment, dividend.
\<close>

definition weights_short :: "rat list" where
  "weights_short = [15 / 100, 35 / 100, 10 / 100, 20 / 100, 15 / 100, 5 / 100]"

text \<open>Modelled from the spec: the weights of the mid-horizon composite.\<close>

definition weights_mid :: "rat list" where
  "weights_mid = [30 / 100, 20 / 100, 15 / 100, 20 / 100, 5 / 100, 10 / 100]"

text \<open>Modelled from the spec: the weights of the long-horizon composite.\<close>

definition weights_long :: "rat list" where
  "weights_long = [30 / 100, 10 / 100, 25 / 100, 15 / 100, 5 / 100, 15 / 100]"

text \<open>
  Modelled from the spec: a composite is the fixed linear combination of the six factor
  scores with its weight vector (the scorer itself is not in the sources).
\<close>

definition composite :: "rat list \<Rightarrow> int \<Rightarrow> int \<Rightarrow> int \<Rightarrow> int \<Rightarrow> int \<Rightarrow> int \<Rightarrow> rat" where
  "composite w moat growth balance valuation sentiment dividend =
     sum_list (map2 (\<lambda>a x. a * of_int x) w
       [moat, growth, balance, valuation, sentiment, dividend])"

text \<open>Modelled from the spec: the three composites the scorer writes.\<close>

definition composite_short :: "int \<Rightarrow> int \<Rightarrow> int \<Rightarrow> int \<Rightarrow> int \<Rightarrow> int \<Rightarrow> rat" where
  "composite_short = composite weights_short"

definition composite_mid :: "int \<Rightarrow> int \<Rightarrow> int \<Rightarrow> int \<Rightarrow> int \<Rightarrow> int \<Rightarrow> rat" where
  "composite_mid = composite weights_mid"

definition composite_long :: "int \<Rightarrow> int \<Rightarrow> int \<Rightarrow> int \<Rightarrow> int \<Rightarrow> int \<Rightarrow> rat" where
  "composite_long = composite weights_long"

text \<open>The range of a factor score, as the CHECK constraints of \<^verbatim>\<open>stock_scores\<close> have it.\<close>

definition factor_ok :: "int \<Rightarrow> bool" where
  "factor_ok x = (0 \<le> x \<and> x \<le> 20)"

section \<open>The tables\<close>

text \<open>
  \<^verbatim>\<open>tickers\<close>, \<^verbatim>\<open>stock_states\<close>, \<^verbatim>\<open>stock_scores\<close> and \<^verbatim>\<open>pipeline_runs\<close>, column by
  column. The key columns are \<open>t_ticker\<close>, \<open>ss_ticker\<close>, \<open>sc_ticker\<close> and \<open>run_id\<close>
  (a UUID, here a natural number). The tables \<^verbatim>\<open>stock_raw_data\<close> and
  \<^verbatim>\<open>score_history\<close> carry no CHECK constraint and no generated column and are left
  out; no statement on the four tables here reads or writes them.
\<close>

record ticker_row =
  t_ticker :: string
  company_name :: string
  sector :: string
  industry :: "string option"
  tier :: int
  market_cap :: "int option"
  is_active :: bool
  added_at :: timestamptz

record state_row =
  ss_ticker :: string
  current_state :: string
  previous_state :: "string option"
  last_updated :: timestamptz
  next_update_due :: timestamptz
  promotion_reason :: "string option"
  promotion_expires :: "timestamptz option"
  consecutive_hot :: int

record score_row =
  sc_ticker :: string
  moat_score :: int
  growth_score :: int
  balance_score :: int
  valuation_score :: int
  sentiment_score :: int
  dividend_score :: int
  total_score :: int
  mfses_short :: rat
  mfses_mid :: rat
  mfses_long :: rat
  graham_value :: "rat option"
  graham_upside_pct :: "rat option"
  is_triple_crown :: bool
  is_value_trap :: bool
  is_expensive_growth :: bool
  scored_at :: timestamptz

record run_row =
  run_id :: nat
  run_type :: string
  started_at :: timestamptz
  finished_at :: "timestamptz option"
  duration_seconds :: "rat option"
  markov_tickers_due :: "int option"
  collected_count :: "int option"
  scored_count :: "int option"
  states_promoted :: "int option"
  states_demoted :: "int option"
  api_calls_made :: "int option"
  api_errors :: "int option"
  status :: string
  error_message :: "string option"
  error_step :: "string option"
  retry_count :: "int option"

record db =
  tickers :: "ticker_row list"
  stock_states :: "state_row list"
  stock_scores :: "score_row list"
  pipeline_runs :: "run_row list"

definition empty_db :: db where
  "empty_db = \<lparr>tickers = [], stock_states = [], stock_scores = [], pipeline_runs = []\<rparr>"

section \<open>What a row must pass to be stored\<close>

definition and_then :: "'e + 'a \<Rightarrow> ('a \<Rightarrow> 'e + 'b) \<Rightarrow> 'e + 'b" where
  "and_then m f = (case m of Inl e \<Rightarrow> Inl e | Inr x \<Rightarrow> f x)"

definition valid_tier :: "ticker_row \<Rightarrow> bool" where
  "valid_tier t = (1 \<le> tier t \<and> tier t \<le> 4)"

definition store_ticker_row :: "ticker_row \<Rightarrow> db_error + ticker_row" where
  "store_ticker_row t =
     (if valid_tier t then Inr t else Inl (check_violation ''valid_tier''))"

definition valid_state :: "state_row \<Rightarrow> bool" where
  "valid_state r = (current_state r \<in> set [''HOT'', ''WARM'', ''COLD'', ''FROZEN''])"

text \<open>
  \<^verbatim>\<open>consecutive_hot\<close> is a \<^verbatim>\<open>SMALLINT\<close>: a value beyond its range is refused before
  the CHECK constraint is looked at.
\<close>

definition store_state_row :: "state_row \<Rightarrow> db_error + state_row" where
  "store_state_row r =
     (if \<not> smallint_ok (consecutive_hot r) then Inl numeric_value_out_of_range
      else if \<not> valid_state r then Inl (check_violation ''valid_state'')
      else Inr r)"

text \<open>
  The four \<^verbatim>\<open>GENERATED ALWAYS AS (...) STORED\<close> columns of \<^verbatim>\<open>stock_scores\<close> are
  recomputed from the other columns of the row each time the row is written.
\<close>

definition generated :: "score_row \<Rightarrow> score_row" where
  "generated r = r\<lparr>
     total_score := moat_score r + growth_score r + balance_score r
                      + valuation_score r + sentiment_score r + dividend_score r,
     is_triple_crown := (mfses_short r \<ge> 14 \<and> mfses_mid r \<ge> 14 \<and> mfses_long r \<ge> 14),
     is_value_trap := (valuation_score r \<ge> 18 \<and> (moat_score r < 12 \<or> balance_score r < 10)),
     is_expensive_growth := (growth_score r \<ge> 18 \<and> valuation_score r < 8)\<rparr>"

definition between :: "int \<Rightarrow> int \<Rightarrow> int \<Rightarrow> bool" where
  "between x lo hi = (lo \<le> x \<and> x \<le> hi)"

definition score_checks :: "score_row \<Rightarrow> db_error + score_row" where
  "score_checks r =
     (if \<not> between (moat_score r) 0 20 then Inl (check_violation ''valid_moat'')
      else if \<not> between (growth_score r) 0 20 then Inl (check_violation ''valid_growth'')
      else if \<not> between (balance_score r) 0 20 then Inl (check_violation ''valid_balance'')
      else if \<not> between (valuation_score r) 0 20 then Inl (check_violation ''valid_valuation'')
      else if \<not> between (sentiment_score r) 0 20 then Inl (check_violation ''valid_sentiment'')
      else if \<not> between (dividend_score r) 0 20 then Inl (check_violation ''valid_dividend'')
      else Inr r)"

text \<open>
  Writing a score row: the \<^verbatim>\<open>NUMERIC\<close> columns are rounded to their scale, the
  generated columns are computed and the six CHECK constraints are tested. (A factor
  score outside \<open>0..20\<close> is refused in any case; the model reports the CHECK constraint
  also where PostgreSQL would report the overflow of the \<^verbatim>\<open>SMALLINT\<close> sum first.)
\<close>

definition store_score_row :: "score_row \<Rightarrow> db_error + score_row" where
  "store_score_row r =
     and_then (numeric_coerce 5 2 (mfses_short r)) (\<lambda>sh.
     and_then (numeric_coerce 5 2 (mfses_mid r)) (\<lambda>mi.
     and_then (numeric_coerce 5 2 (mfses_long r)) (\<lambda>lo.
     and_then (numeric_coerce_opt 12 4 (graham_value r)) (\<lambda>gv.
     and_then (numeric_coerce_opt 8 2 (graham_upside_pct r)) (\<lambda>gu.
       score_checks (generated (r\<lparr>mfses_short := sh, mfses_mid := mi, mfses_long := lo,
                                   graham_value := gv, graham_upside_pct := gu\<rparr>)))))))"

definition valid_status :: "run_row \<Rightarrow> bool" where
  "valid_status r = (status r \<in> set [''running'', ''success'', ''partial'', ''failed''])"

definition store_run_row :: "run_row \<Rightarrow> db_error + run_row" where
  "store_run_row r =
     and_then (numeric_coerce_opt 8 2 (duration_seconds r)) (\<lambda>du.
       if \<not> valid_status r then Inl (check_violation ''valid_status'')
       else Inr (r\<lparr>duration_seconds := du\<rparr>))"

section \<open>INSERT, UPDATE and DELETE\<close>

text \<open>
  \<^verbatim>\<open>UPDATE t SET ... WHERE p\<close> replaces every row that satisfies \<open>p\<close>; when one of
  the new rows is refused the statement raises and nothing is changed.
\<close>

fun update_rows :: "('r \<Rightarrow> bool) \<Rightarrow> ('r \<Rightarrow> db_error + 'r) \<Rightarrow> 'r list \<Rightarrow> db_error + 'r list" where
  "update_rows p f [] = Inr []"
| "update_rows p f (r # rs) =
     (if p r
      then and_then (f r) (\<lambda>r'. and_then (update_rows p f rs) (\<lambda>rs'. Inr (r' # rs')))
      else and_then (update_rows p f rs) (\<lambda>rs'. Inr (r # rs')))"

definition insert_unique :: "('r \<Rightarrow> 'k) \<Rightarrow> 'r \<Rightarrow> 'r list \<Rightarrow> db_error + 'r list" where
  "insert_unique key r rs =
     (if key r \<in> set (map key rs) then Inl unique_violation else Inr (rs @ [r]))"

definition unique_ok :: "'k list \<Rightarrow> 'a \<Rightarrow> db_error + 'a" where
  "unique_ok ks x = (if distinct ks then Inr x else Inl unique_violation)"

definition references_ok :: "'k list \<Rightarrow> 'k list \<Rightarrow> 'a \<Rightarrow> db_error + 'a" where
  "references_ok ks parents x =
     (if set ks \<subseteq> set parents then Inr x else Inl foreign_key_violation)"

section \<open>The functions of the schema\<close>

subsection \<open>\<^verbatim>\<open>update_markov_state\<close>\<close>

definition interval_minutes :: "string option \<Rightarrow> int" where
  "interval_minutes p_new_state =
     (if p_new_state = Some ''HOT'' then 30
      else if p_new_state = Some ''WARM'' then 120
      else if p_new_state = Some ''COLD'' then 360
      else if p_new_state = Some ''FROZEN'' then 1440
      else 360)"

text \<open>
  The \<^verbatim>\<open>SET\<close> list applied to one row. Every right-hand side reads the row as it was
  before the statement. \<^verbatim>\<open>current_state\<close> is \<^verbatim>\<open>NOT NULL\<close>, so a NULL
  \<^verbatim>\<open>p_new_state\<close> is refused; the new row then has to pass \<open>store_state_row\<close>.
\<close>

definition markov_set :: "timestamptz \<Rightarrow> string option \<Rightarrow> string option \<Rightarrow> state_row
    \<Rightarrow> db_error + state_row" where
  "markov_set now p_new_state p_reason r =
     (case p_new_state of
        None \<Rightarrow> Inl not_null_violation
      | Some s \<Rightarrow> store_state_row (r\<lparr>
          previous_state := Some (current_state r),
          current_state := s,
          last_updated := now,
          next_update_due := now + minutes (interval_minutes p_new_state),
          promotion_reason :=
            (if p_new_state \<in> set [Some ''HOT'', Some ''WARM''] then p_reason else None),
          promotion_expires :=
            (if p_new_state = Some ''HOT'' then Some (now + hours 24) else None),
          consecutive_hot :=
            (if p_new_state = Some ''HOT'' then consecutive_hot r + 1 else 0)\<rparr>))"

definition update_markov_state :: "timestamptz \<Rightarrow> string option \<Rightarrow> string option
    \<Rightarrow> string option \<Rightarrow> state_row list \<Rightarrow> db_error + state_row list" where
  "update_markov_state now p_ticker p_new_state p_reason rows =
     update_rows (\<lambda>r. Some (ss_ticker r) = p_ticker)
       (markov_set now p_new_state p_reason) rows"

subsection \<open>\<^verbatim>\<open>start_pipeline_run\<close> and \<^verbatim>\<open>complete_pipeline_run\<close>\<close>

text \<open>
  \<^verbatim>\<open>uuid_generate_v4()\<close> is the environment's choice: the new identifier is an
  argument. The other columns of the inserted row take their defaults.
\<close>

definition start_pipeline_run :: "timestamptz \<Rightarrow> nat \<Rightarrow> string option \<Rightarrow> run_row list
    \<Rightarrow> db_error + nat \<times> run_row list" where
  "start_pipeline_run now new_id p_run_type rows =
     (case p_run_type of
        None \<Rightarrow> Inl not_null_violation
      | Some t \<Rightarrow>
          and_then (store_run_row \<lparr>run_id = new_id, run_type = t, started_at = now,
              finished_at = None, duration_seconds = None, markov_tickers_due = Some 0,
              collected_count = Some 0, scored_count = Some 0, states_promoted = Some 0,
              states_demoted = Some 0, api_calls_made = Some 0, api_errors = Some 0,
              status = ''running'', error_message = None, error_step = None,
              retry_count = Some 0\<rparr>) (\<lambda>r.
          and_then (insert_unique run_id r rows) (\<lambda>rows'. Inr (new_id, rows'))))"

record completion =
  p_status :: "string option"
  p_markov_count :: "int option"
  p_collected :: "int option"
  p_scored :: "int option"
  p_promoted :: "int option"
  p_demoted :: "int option"
  p_api_calls :: "int option"
  p_api_errors :: "int option"
  p_error_message :: "string option"
  p_error_step :: "string option"

definition complete_set :: "timestamptz \<Rightarrow> completion \<Rightarrow> run_row \<Rightarrow> db_error + run_row" where
  "complete_set now a r =
     (case p_status a of
        None \<Rightarrow> Inl not_null_violation
      | Some s \<Rightarrow> store_run_row (r\<lparr>
          finished_at := Some now,
          duration_seconds := Some (of_int (now - started_at r) / 1000000),
          status := s,
          markov_tickers_due := p_markov_count a,
          collected_count := p_collected a,
          scored_count := p_scored a,
          states_promoted := p_promoted a,
          states_demoted := p_demoted a,
          api_calls_made := p_api_calls a,
          api_errors := p_api_errors a,
          error_message := p_error_message a,
          error_step := p_error_step a\<rparr>))"

definition complete_pipeline_run :: "timestamptz \<Rightarrow> nat option \<Rightarrow> completion
    \<Rightarrow> run_row list \<Rightarrow> db_error + run_row list" where
  "complete_pipeline_run now p_run_id a rows =
     update_rows (\<lambda>r. Some (run_id r) = p_run_id) (complete_set now a) rows"

subsection \<open>\<^verbatim>\<open>cleanup_old_data\<close>\<close>

text \<open>
  The function deletes the runs started more than 30 days ago (and, in the table
  \<^verbatim>\<open>score_history\<close> that is left out here, the snapshots older than 90 days).
\<close>

definition cleanup_old_data :: "timestamptz \<Rightarrow> run_row list \<Rightarrow> run_row list" where
  "cleanup_old_data now rows = filter (\<lambda>r. \<not> started_at r < now - days 30) rows"

subsection \<open>\<^verbatim>\<open>get_tickers_due_for_update\<close>\<close>

text \<open>The \<^verbatim>\<open>CASE\<close> of the \<^verbatim>\<open>ORDER BY\<close> has no \<^verbatim>\<open>ELSE\<close>: any other state gives NULL.\<close>

definition state_priority :: "string \<Rightarrow> nat option" where
  "state_priority s =
     (if s = ''HOT'' then Some 1
      else if s = ''WARM'' then Some 2
      else if s = ''COLD'' then Some 3
      else if s = ''FROZEN'' then Some 4
      else None)"

text \<open>Ascending order puts NULL after every number.\<close>

definition priority_less :: "nat option \<Rightarrow> nat option \<Rightarrow> bool" where
  "priority_less a b =
     (case a of None \<Rightarrow> False
      | Some x \<Rightarrow> (case b of None \<Rightarrow> True | Some y \<Rightarrow> x < y))"

text \<open>
  \<open>due_order a b\<close>: the \<^verbatim>\<open>ORDER BY\<close> list allows row \<open>a\<close> before row \<open>b\<close> (first key
  smaller, or first key equal and \<^verbatim>\<open>next_update_due\<close> not larger).
\<close>

definition due_order :: "state_row \<Rightarrow> state_row \<Rightarrow> bool" where
  "due_order a b =
     (priority_less (state_priority (current_state a)) (state_priority (current_state b))
      \<or> (state_priority (current_state a) = state_priority (current_state b)
          \<and> next_update_due a \<le> next_update_due b))"

text \<open>The rows of the \<^verbatim>\<open>JOIN\<close> that pass the \<^verbatim>\<open>WHERE\<close> clause.\<close>

definition due_rows :: "db \<Rightarrow> timestamptz \<Rightarrow> state_row list" where
  "due_rows d now =
     [ss. ss \<leftarrow> stock_states d, t \<leftarrow> tickers d, ss_ticker ss = t_ticker t,
          is_active t \<and> next_update_due ss \<le> now]"

text \<open>
  SQL fixes the order of a result only as far as the \<^verbatim>\<open>ORDER BY\<close> keys tell rows apart;
  rows with equal keys come in the order the executor happens to produce. So the function
  is a relation: \<open>get_tickers_due_for_update d now rs\<close> holds when \<open>rs\<close> are the selected
  rows in an order that the keys allow. The caller sees the three columns
  \<open>returned_columns\<close> of each row.
\<close>

definition get_tickers_due_for_update :: "db \<Rightarrow> timestamptz \<Rightarrow> state_row list \<Rightarrow> bool" where
  "get_tickers_due_for_update d now rs =
     (mset rs = mset (due_rows d now) \<and> sorted_wrt due_order rs)"

definition returned_columns :: "state_row list \<Rightarrow> (string \<times> string \<times> timestamptz) list" where
  "returned_columns rs = map (\<lambda>r. (ss_ticker r, current_state r, last_updated r)) rs"

text \<open>One execution: an insertion sort that keeps rows with equal keys in table order.\<close>

fun due_insert :: "state_row \<Rightarrow> state_row list \<Rightarrow> state_row list" where
  "due_insert a [] = [a]"
| "due_insert a (b # bs) = (if due_order a b then a # b # bs else b # due_insert a bs)"

fun due_sort :: "state_row list \<Rightarrow> state_row list" where
  "due_sort [] = []"
| "due_sort (a # as) = due_insert a (due_sort as)"

subsection \<open>The prioritizer's batch\<close>

text \<open>
  Modelled from the spec: the prioritizer that calls \<^verbatim>\<open>get_tickers_due_for_update\<close> is
  not part of the sources at hand. \<open>selectBatch\<close> takes the list that \<open>dueInstruments\<close>
  returned and truncates it to \<open>budget\<close> entries; it writes nothing.
\<close>

definition selectBatch :: "nat \<Rightarrow> state_row list \<Rightarrow> state_row list" where
  "selectBatch budget due = take budget due"

section \<open>Request pacing in the Polygon module\<close>

text \<open>
  \<^verbatim>\<open>polyFetch\<close> keeps the time of the last request in the module variable
  \<^verbatim>\<open>lastCall\<close> (0 when the module is loaded), the same for every caller. Times are
  \<^verbatim>\<open>Date.now()\<close> readings in milliseconds. The function is asynchronous: a call reads the
  clock and \<^verbatim>\<open>lastCall\<close> and computes \<open>polyFetch_wait\<close>; when there is something to
  wait for, it hands control back until its timer fires, and other calls may begin in the
  meantime; then it reads the clock again, stores that reading in \<^verbatim>\<open>lastCall\<close> and
  sends the request.
\<close>

definition polyFetch_wait :: "int \<Rightarrow> int \<Rightarrow> int" where
  "polyFetch_wait lastCall now = max 0 (150 - (now - lastCall))"

text \<open>
  The module's state: \<^verbatim>\<open>lastCall\<close>, the calls that wait for their timers (the time
  at which each timer is due, in the order in which they were set) and the times at
  which requests have been sent.
\<close>

record pacer =
  lastCall :: int
  waiting :: "int list"
  sent :: "int list"

definition fresh :: pacer where
  "fresh = \<lparr>lastCall = 0, waiting = [], sent = []\<rparr>"

text \<open>
  What happens, one uninterrupted piece of the function at a time. \<open>Begin now later\<close>: a
  call begins at clock \<open>now\<close>; with nothing to wait for it goes on at once, reads the clock
  again (\<open>now + later\<close>) and sends its request. \<open>Wake t\<close>: the timer of the first waiting
  call fires at clock \<open>t\<close>, not before it is due; the call sets \<^verbatim>\<open>lastCall\<close> to \<open>t\<close>
  and sends its request.
\<close>

datatype event = Begin int nat | Wake int

fun polyFetch_step :: "pacer \<Rightarrow> event \<Rightarrow> pacer option" where
  "polyFetch_step p (Begin now later) =
     (let wait = polyFetch_wait (lastCall p) now
      in if wait > 0 then Some (p\<lparr>waiting := waiting p @ [now + wait]\<rparr>)
         else Some (p\<lparr>lastCall := now + int later, sent := sent p @ [now + int later]\<rparr>))"
| "polyFetch_step p (Wake t) =
     (case waiting p of
        [] \<Rightarrow> None
      | due # rest \<Rightarrow>
          if t < due then None
          else Some (p\<lparr>lastCall := t, waiting := rest, sent := sent p @ [t]\<rparr>))"

fun polyFetch_run :: "pacer \<Rightarrow> event list \<Rightarrow> pacer option" where
  "polyFetch_run p [] = Some p"
| "polyFetch_run p (e # es) =
     (case polyFetch_step p e of None \<Rightarrow> None | Some p' \<Rightarrow> polyFetch_run p' es)"

text \<open>Calls that do not overlap: no call begins while another one waits for its timer.\<close>

fun one_at_a_time :: "pacer \<Rightarrow> event list \<Rightarrow> bool" where
  "one_at_a_time p [] = True"
| "one_at_a_time p (e # es) =
     ((case e of Begin now later \<Rightarrow> waiting p = [] | Wake t \<Rightarrow> True)
      \<and> (case polyFetch_step p e of None \<Rightarrow> False | Some p' \<Rightarrow> one_at_a_time p' es))"

text \<open>The number of requests sent in the 60 seconds that start at \<open>t\<close>.\<close>

definition calls_in_window :: "int list \<Rightarrow> int \<Rightarrow> nat" where
  "calls_in_window ts t = length (filter (\<lambda>s. t \<le> s \<and> s < t + 60000) ts)"

text \<open>
  The invariant of calls that do not overlap: requests are 150 milliseconds apart, none
  is later than \<^verbatim>\<open>lastCall\<close>, and a waiting call is due 150 milliseconds after it.
\<close>

definition paced :: "pacer \<Rightarrow> bool" where
  "paced p =
     (sorted_wrt (\<lambda>a b. a + 150 \<le> b) (sent p)
      \<and> (\<forall>s \<in> set (sent p). s \<le> lastCall p)
      \<and> (waiting p = [] \<or> (\<exists>due. waiting p = [due] \<and> lastCall p + 150 \<le> due)))"

section \<open>Statements against the store\<close>

text \<open>
  Every way to change the store: a row inserted, the rows that satisfy a condition
  replaced or deleted, and the functions of the schema. An \<^verbatim>\<open>UPDATE\<close> is given by its
  \<^verbatim>\<open>WHERE\<close> condition and the assignment of its \<^verbatim>\<open>SET\<close> list as a function on rows.
  PostgreSQL refuses a statement that assigns a generated column; here such an
  assignment is without effect, because \<open>store_score_row\<close> recomputes these columns.
  Primary keys are unique, \<^verbatim>\<open>stock_states\<close> and \<^verbatim>\<open>stock_scores\<close> reference
  \<^verbatim>\<open>tickers\<close>, and deleting a ticker deletes the rows that reference it.
\<close>

datatype statement =
    InsertTicker ticker_row
  | UpdateTickers "ticker_row \<Rightarrow> bool" "ticker_row \<Rightarrow> ticker_row"
  | DeleteTickers "ticker_row \<Rightarrow> bool"
  | InsertState state_row
  | UpdateStates "state_row \<Rightarrow> bool" "state_row \<Rightarrow> state_row"
  | DeleteStates "state_row \<Rightarrow> bool"
  | InsertScore score_row
  | UpdateScores "score_row \<Rightarrow> bool" "score_row \<Rightarrow> score_row"
  | DeleteScores "score_row \<Rightarrow> bool"
  | InsertRun run_row
  | UpdateRuns "run_row \<Rightarrow> bool" "run_row \<Rightarrow> run_row"
  | DeleteRuns "run_row \<Rightarrow> bool"
  | Call_update_markov_state "string option" "string option" "string option"
  | Call_start_pipeline_run nat "string option"
  | Call_complete_pipeline_run "nat option" completion
  | Call_cleanup_old_data

fun exec :: "timestamptz \<Rightarrow> statement \<Rightarrow> db \<Rightarrow> db_error + db" where
  "exec now (InsertTicker t) d =
     and_then (store_ticker_row t) (\<lambda>t'.
     and_then (insert_unique t_ticker t' (tickers d)) (\<lambda>ts. Inr (d\<lparr>tickers := ts\<rparr>)))"
| "exec now (UpdateTickers p f) d =
     and_then (update_rows p (\<lambda>t. store_ticker_row (f t)) (tickers d)) (\<lambda>ts.
     and_then (unique_ok (map t_ticker ts) ts) (\<lambda>ts.
     and_then (references_ok (map ss_ticker (stock_states d)) (map t_ticker ts) ts) (\<lambda>ts.
     and_then (references_ok (map sc_ticker (stock_scores d)) (map t_ticker ts) ts) (\<lambda>ts.
       Inr (d\<lparr>tickers := ts\<rparr>)))))"
| "exec now (DeleteTickers p) d =
     (let gone = map t_ticker (filter p (tickers d))
      in Inr (d\<lparr>tickers := filter (\<lambda>t. \<not> p t) (tickers d),
                 stock_states := filter (\<lambda>r. ss_ticker r \<notin> set gone) (stock_states d),
                 stock_scores := filter (\<lambda>r. sc_ticker r \<notin> set gone) (stock_scores d)\<rparr>))"
| "exec now (InsertState r) d =
     and_then (store_state_row r) (\<lambda>r'.
     and_then (insert_unique ss_ticker r' (stock_states d)) (\<lambda>rs.
     and_then (references_ok [ss_ticker r'] (map t_ticker (tickers d)) rs) (\<lambda>rs.
       Inr (d\<lparr>stock_states := rs\<rparr>))))"
| "exec now (UpdateStates p f) d =
     and_then (update_rows p (\<lambda>r. store_state_row (f r)) (stock_states d)) (\<lambda>rs.
     and_then (unique_ok (map ss_ticker rs) rs) (\<lambda>rs.
     and_then (references_ok (map ss_ticker rs) (map t_ticker (tickers d)) rs) (\<lambda>rs.
       Inr (d\<lparr>stock_states := rs\<rparr>))))"
| "exec now (DeleteStates p) d =
     Inr (d\<lparr>stock_states := filter (\<lambda>r. \<not> p r) (stock_states d)\<rparr>)"
| "exec now (InsertScore r) d =
     and_then (store_score_row r) (\<lambda>r'.
     and_then (insert_unique sc_ticker r' (stock_scores d)) (\<lambda>rs.
     and_then (references_ok [sc_ticker r'] (map t_ticker (tickers d)) rs) (\<lambda>rs.
       Inr (d\<lparr>stock_scores := rs\<rparr>))))"
| "exec now (UpdateScores p f) d =
     and_then (update_rows p (\<lambda>r. store_score_row (f r)) (stock_scores d)) (\<lambda>rs.
     and_then (unique_ok (map sc_ticker rs) rs) (\<lambda>rs.
     and_then (references_ok (map sc_ticker rs) (map t_ticker (tickers d)) rs) (\<lambda>rs.
       Inr (d\<lparr>stock_scores := rs\<rparr>))))"
| "exec now (DeleteScores p) d =
     Inr (d\<lparr>stock_scores := filter (\<lambda>r. \<not> p r) (stock_scores d)\<rparr>)"
| "exec now (InsertRun r) d =
     and_then (store_run_row r) (\<lambda>r'.
     and_then (insert_unique run_id r' (pipeline_runs d)) (\<lambda>rs.
       Inr (d\<lparr>pipeline_runs := rs\<rparr>)))"
| "exec now (UpdateRuns p f) d =
     and_then (update_rows p (\<lambda>r. store_run_row (f r)) (pipeline_runs d)) (\<lambda>rs.
     and_then (unique_ok (map run_id rs) rs) (\<lambda>rs.
       Inr (d\<lparr>pipeline_runs := rs\<rparr>)))"
| "exec now (DeleteRuns p) d =
     Inr (d\<lparr>pipeline_runs := filter (\<lambda>r. \<not> p r) (pipeline_runs d)\<rparr>)"
| "exec now (Call_update_markov_state p_ticker p_new_state p_reason) d =
     and_then (update_markov_state now p_ticker p_new_state p_reason (stock_states d))
       (\<lambda>rs. Inr (d\<lparr>stock_states := rs\<rparr>))"
| "exec now (Call_start_pipeline_run new_id p_run_type) d =
     and_then (start_pipeline_run now new_id p_run_type (pipeline_runs d))
       (\<lambda>(i, rs). Inr (d\<lparr>pipeline_runs := rs\<rparr>))"
| "exec now (Call_complete_pipeline_run p_run_id a) d =
     and_then (complete_pipeline_run now p_run_id a (pipeline_runs d))
       (\<lambda>rs. Inr (d\<lparr>pipeline_runs := rs\<rparr>))"
| "exec now Call_cleanup_old_data d =
     Inr (d\<lparr>pipeline_runs := cleanup_old_data now (pipeline_runs d)\<rparr>)"

text \<open>The stores that statements can produce from the empty schema.\<close>

inductive reachable :: "db \<Rightarrow> bool" where
  reachable_empty: "reachable empty_db"
| reachable_exec: "reachable d \<Longrightarrow> exec now stmt d = Inr d' \<Longrightarrow> reachable d'"

section \<open>What the constraints promise of a store\<close>

definition factors_in_range :: "score_row \<Rightarrow> bool" where
  "factors_in_range r =
     (between (moat_score r) 0 20 \<and> between (growth_score r) 0 20
      \<and> between (balance_score r) 0 20 \<and> between (valuation_score r) 0 20
      \<and> between (sentiment_score r) 0 20 \<and> between (dividend_score r) 0 20)"

definition ranges_ok :: "db \<Rightarrow> bool" where
  "ranges_ok d =
     ((\<forall>r \<in> set (stock_scores d). factors_in_range r)
      \<and> (\<forall>r \<in> set (stock_states d). valid_state r)
      \<and> (\<forall>t \<in> set (tickers d). valid_tier t))"

definition derived_ok :: "db \<Rightarrow> bool" where
  "derived_ok d = (\<forall>r \<in> set (stock_scores d). generated r = r)"

definition status_ok :: "db \<Rightarrow> bool" where
  "status_ok d = (\<forall>r \<in> set (pipeline_runs d). valid_status r)"

definition counters_ok :: "db \<Rightarrow> bool" where
  "counters_ok d = (\<forall>r \<in> set (stock_states d). smallint_ok (consecutive_hot r))"

definition keys_unique :: "db \<Rightarrow> bool" where
  "keys_unique d =
     (distinct (map t_ticker (tickers d)) \<and> distinct (map ss_ticker (stock_states d))
      \<and> distinct (map sc_ticker (stock_scores d)) \<and> distinct (map run_id (pipeline_runs d)))"

section \<open>A small store\<close>

text \<open>
  One ticker with its state row and its score row, each as the column defaults give it
  (\<^verbatim>\<open>INSERT INTO stock_scores (ticker) VALUES ('AAPL')\<close>: every factor score 0 but
  the sentiment score 12, every composite 0), and the assignment
  \<^verbatim>\<open>SET mfses_short = 14, mfses_mid = 14, mfses_long = 14\<close>.
\<close>

definition aapl :: ticker_row where
  "aapl = \<lparr>t_ticker = ''AAPL'', company_name = ''Apple Inc'', sector = ''Technology'',
     industry = None, tier = 1, market_cap = None, is_active = True, added_at = 0\<rparr>"

definition aapl_state :: state_row where
  "aapl_state = \<lparr>ss_ticker = ''AAPL'', current_state = ''COLD'', previous_state = None,
     last_updated = 0, next_update_due = 0, promotion_reason = None,
     promotion_expires = None, consecutive_hot = 0\<rparr>"

definition aapl_score :: score_row where
  "aapl_score = \<lparr>sc_ticker = ''AAPL'', moat_score = 0, growth_score = 0, balance_score = 0,
     valuation_score = 0, sentiment_score = 12, dividend_score = 0, total_score = 12,
     mfses_short = 0, mfses_mid = 0, mfses_long = 0, graham_value = None,
     graham_upside_pct = None, is_triple_crown = False, is_value_trap = False,
     is_expensive_growth = False, scored_at = 0\<rparr>"

definition crown :: "score_row \<Rightarrow> score_row" where
  "crown r = r\<lparr>mfses_short := 14, mfses_mid := 14, mfses_long := 14\<rparr>"

definition aapl_crowned :: score_row where
  "aapl_crowned = aapl_score\<lparr>mfses_short := 14, mfses_mid := 14, mfses_long := 14,
     is_triple_crown := True\<rparr>"

definition aapl_db :: db where
  "aapl_db = \<lparr>tickers = [aapl], stock_states = [aapl_state], stock_scores = [aapl_score],
     pipeline_runs = []\<rparr>"

definition crowned_db :: db where
  "crowned_db = aapl_db\<lparr>stock_scores := [aapl_crowned]\<rparr>"

text \<open>
  The same store after 32767 transitions to HOT in a row, and the arguments of a
  completion that reports success with every counter at its default.
\<close>

definition long_hot_db :: db where
  "long_hot_db = aapl_db\<lparr>stock_states :=
     [aapl_state\<lparr>current_state := ''HOT'', consecutive_hot := 32767\<rparr>]\<rparr>"

definition no_counts :: completion where
  "no_counts = \<lparr>p_status = Some ''success'', p_markov_count = Some 0, p_collected = Some 0,
     p_scored = Some 0, p_promoted = Some 0, p_demoted = Some 0, p_api_calls = Some 0,
     p_api_errors = Some 0, p_error_message = None, p_error_step = None\<rparr>"

text \<open>
  A run started at time 0 with identifier 1, the same run completed with success after
  10 seconds, and completed once more, as failed, after 20 seconds.
\<close>

definition started_run :: run_row where
  "started_run = \<lparr>run_id = 1, run_type = ''manual'', started_at = 0, finished_at = None,
     duration_seconds = None, markov_tickers_due = Some 0, collected_count = Some 0,
     scored_count = Some 0, states_promoted = Some 0, states_demoted = Some 0,
     api_calls_made = Some 0, api_errors = Some 0, status = ''running'',
     error_message = None, error_step = None, retry_count = Some 0\<rparr>"

definition collector_failed :: completion where
  "collector_failed = no_counts\<lparr>p_status := Some ''failed'',
     p_error_message := Some ''timeout'', p_error_step := Some ''collector''\<rparr>"

definition succeeded_run :: run_row where
  "succeeded_run = started_run\<lparr>finished_at := Some 10000000, duration_seconds := Some 10,
     status := ''success''\<rparr>"

definition failed_run :: run_row where
  "failed_run = started_run\<lparr>finished_at := Some 20000000, duration_seconds := Some 20,
     status := ''failed'', error_message := Some ''timeout'',
     error_step := Some ''collector''\<rparr>"

definition started_db :: db where
  "started_db = empty_db\<lparr>pipeline_runs := [started_run]\<rparr>"

definition succeeded_db :: db where
  "succeeded_db = empty_db\<lparr>pipeline_runs := [succeeded_run]\<rparr>"

definition failed_db :: db where
  "failed_db = empty_db\<lparr>pipeline_runs := [failed_run]\<rparr>"

text \<open>
  Two tickers whose state rows were made by the same bootstrap (both COLD, both due at
  time 0), and the same two with the first one HOT and due later than the second.
\<close>

definition msft :: ticker_row where
  "msft = \<lparr>t_ticker = ''MSFT'', company_name = ''Microsoft Corp'', sector = ''Technology'',
     industry = None, tier = 1, market_cap = None, is_active = True, added_at = 0\<rparr>"

definition msft_state :: state_row where
  "msft_state = \<lparr>ss_ticker = ''MSFT'', current_state = ''COLD'', previous_state = None,
     last_updated = 0, next_update_due = 0, promotion_reason = None,
     promotion_expires = None, consecutive_hot = 0\<rparr>"

definition two_db :: db where
  "two_db = \<lparr>tickers = [aapl, msft], stock_states = [aapl_state, msft_state],
     stock_scores = [], pipeline_runs = []\<rparr>"

definition hot_aapl_state :: state_row where
  "hot_aapl_state = aapl_state\<lparr>current_state := ''HOT'', next_update_due := 500\<rparr>"

definition mixed_db :: db where
  "mixed_db = \<lparr>tickers = [aapl, msft], stock_states = [msft_state, hot_aapl_state],
     stock_scores = [], pipeline_runs = []\<rparr>"

text \<open>
  Six tickers, one of them not active, with state rows in all four states, stored in
  another order than the one in which they are due; and the order in which the five
  active ones are to be listed.
\<close>

definition goog :: ticker_row where
  "goog = aapl\<lparr>t_ticker := ''GOOG'', company_name := ''Alphabet Inc''\<rparr>"

definition nvda :: ticker_row where
  "nvda = aapl\<lparr>t_ticker := ''NVDA'', company_name := ''NVIDIA Corp''\<rparr>"

definition tsla :: ticker_row where
  "tsla = aapl\<lparr>t_ticker := ''TSLA'', company_name := ''Tesla Inc''\<rparr>"

definition meta :: ticker_row where
  "meta = aapl\<lparr>t_ticker := ''META'', company_name := ''Meta Platforms'',
     is_active := False\<rparr>"

definition goog_state :: state_row where
  "goog_state = aapl_state\<lparr>ss_ticker := ''GOOG'', current_state := ''HOT'',
     next_update_due := 200\<rparr>"

definition nvda_state :: state_row where
  "nvda_state = aapl_state\<lparr>ss_ticker := ''NVDA'', current_state := ''WARM'',
     next_update_due := 300\<rparr>"

definition tsla_state :: state_row where
  "tsla_state = aapl_state\<lparr>ss_ticker := ''TSLA'', current_state := ''FROZEN'',
     next_update_due := 100\<rparr>"

definition meta_state :: state_row where
  "meta_state = aapl_state\<lparr>ss_ticker := ''META'', current_state := ''HOT''\<rparr>"

definition six_db :: db where
  "six_db = \<lparr>tickers = [aapl, msft, goog, nvda, tsla, meta],
     stock_states = [msft_state, tsla_state, meta_state, nvda_state, hot_aapl_state, goog_state],
     stock_scores = [], pipeline_runs = []\<rparr>"

definition six_db_listing :: "state_row list" where
  "six_db_listing = [goog_state, hot_aapl_state, nvda_state, msft_state, tsla_state]"

text \<open>
  Six calls in a row in a freshly loaded module: the first at clock 1000, each of the
  others 50 milliseconds after the request before it was sent, every timer firing on
  time. And three calls that begin in the same millisecond, as the three refreshes that
  \<^verbatim>\<open>api/index.js\<close> starts together on load do.
\<close>

definition six_in_a_row :: "event list" where
  "six_in_a_row = [Begin 1000 0, Begin 1050 0, Wake 1150, Begin 1200 0, Wake 1300,
     Begin 1350 0, Wake 1450, Begin 1500 0, Wake 1600, Begin 1650 0, Wake 1750]"

definition three_at_once :: "event list" where
  "three_at_once = [Begin 1000 0, Begin 1000 0, Begin 1000 0, Wake 1150, Wake 1150]"

section \<open>Composite bounds\<close>

lemma composite_short_eq:
  "composite_short m g b v s d =
     (35 * of_int g + 20 * of_int v + 15 * of_int s + 15 * of_int m + 10 * of_int b
        + 5 * of_int d) / 100"
  by (simp add: composite_short_def composite_def weights_short_def)

lemma composite_mid_eq:
  "composite_mid m g b v s d =
     (30 * of_int m + 20 * of_int v + 20 * of_int g + 15 * of_int b + 10 * of_int d
        + 5 * of_int s) / 100"
  by (simp add: composite_mid_def composite_def weights_mid_def)

lemma composite_long_eq:
  "composite_long m g b v s d =
     (30 * of_int m + 25 * of_int b + 15 * of_int d + 15 * of_int v + 10 * of_int g
        + 5 * of_int s) / 100"
  by (simp add: composite_long_def composite_def weights_long_def)

lemma weights_sum_one:
  "sum_list weights_short = 1" "sum_list weights_mid = 1" "sum_list weights_long = 1"
  by (simp_all add: weights_short_def weights_mid_def weights_long_def)

lemma weighted_bounds:
  fixes a b c d e f :: int
  assumes "0 \<le> a" "0 \<le> b" "0 \<le> c" "0 \<le> d" "0 \<le> e" "0 \<le> f" "a + b + c + d + e + f = 100"
    and "factor_ok x1" "factor_ok x2" "factor_ok x3" "factor_ok x4" "factor_ok x5" "factor_ok x6"
  shows "0 \<le> (of_int (a * x1 + b * x2 + c * x3 + d * x4 + e * x5 + f * x6) :: rat) / 100"
    and "(of_int (a * x1 + b * x2 + c * x3 + d * x4 + e * x5 + f * x6) :: rat) / 100 \<le> 20"
proof -
  let ?n = "a * x1 + b * x2 + c * x3 + d * x4 + e * x5 + f * x6"
  have nonneg: "0 \<le> ?n"
    using assms by (simp add: factor_ok_def)
  have "a * x1 \<le> a * 20" "b * x2 \<le> b * 20" "c * x3 \<le> c * 20"
    "d * x4 \<le> d * 20" "e * x5 \<le> e * 20" "f * x6 \<le> f * 20"
    using assms by (simp_all add: factor_ok_def mult_left_mono)
  then have "?n \<le> (a + b + c + d + e + f) * 20"
    by (simp add: algebra_simps)
  then have upper: "?n \<le> 2000"
    using assms(7) by simp
  from nonneg have "(0::rat) \<le> of_int ?n"
    by (simp only: of_int_0_le_iff)
  then show "0 \<le> (of_int ?n :: rat) / 100"
    by simp
  from upper have "(of_int ?n :: rat) \<le> of_int 2000"
    by (simp only: of_int_le_iff)
  then show "(of_int ?n :: rat) / 100 \<le> 20"
    by simp
qed

text \<open>
  Claim C5. When each of the six factor scores lies in \<open>0..20\<close>, each of the three
  composites (the short-horizon one being 0.35 growth + 0.20 valuation + 0.15 sentiment
  + 0.15 moat + 0.10 balance + 0.05 dividend) lies between 0 and 20, and each of the
  three weight vectors sums to exactly 1.
\<close>

theorem composites_in_range:
  assumes "factor_ok moat" "factor_ok growth" "factor_ok balance"
    and "factor_ok valuation" "factor_ok sentiment" "factor_ok dividend"
  shows "composite_short moat growth balance valuation sentiment dividend =
           35 / 100 * of_int growth + 20 / 100 * of_int valuation + 15 / 100 * of_int sentiment
           + 15 / 100 * of_int moat + 10 / 100 * of_int balance + 5 / 100 * of_int dividend
       \<and> composite_mid moat growth balance valuation sentiment dividend =
           30 / 100 * of_int moat + 20 / 100 * of_int valuation + 20 / 100 * of_int growth
           + 15 / 100 * of_int balance + 10 / 100 * of_int dividend + 5 / 100 * of_int sentiment
       \<and> composite_long moat growth balance valuation sentiment dividend =
           30 / 100 * of_int moat + 25 / 100 * of_int balance + 15 / 100 * of_int dividend
           + 15 / 100 * of_int valuation + 10 / 100 * of_int growth + 5 / 100 * of_int sentiment
       \<and> 0 \<le> composite_short moat growth balance valuation sentiment dividend
       \<and> composite_short moat growth balance valuation sentiment dividend \<le> 20
       \<and> 0 \<le> composite_mid moat growth balance valuation sentiment dividend
       \<and> composite_mid moat growth balance valuation sentiment dividend \<le> 20
       \<and> 0 \<le> composite_long moat growth balance valuation sentiment dividend
       \<and> composite_long moat growth balance valuation sentiment dividend \<le> 20
       \<and> sum_list weights_short = 1 \<and> sum_list weights_mid = 1 \<and> sum_list weights_long = 1"
proof -
  have s: "composite_short moat growth balance valuation sentiment dividend =
      of_int (35 * growth + 20 * valuation + 15 * sentiment + 15 * moat + 10 * balance
        + 5 * dividend) / 100"
    by (simp add: composite_short_eq)
  have m: "composite_mid moat growth balance valuation sentiment dividend =
      of_int (30 * moat + 20 * valuation + 20 * growth + 15 * balance + 10 * dividend
        + 5 * sentiment) / 100"
    by (simp add: composite_mid_eq)
  have l: "composite_long moat growth balance valuation sentiment dividend =
      of_int (30 * moat + 25 * balance + 15 * dividend + 15 * valuation + 10 * growth
        + 5 * sentiment) / 100"
    by (simp add: composite_long_eq)
  have "composite_short moat growth balance valuation sentiment dividend =
           35 / 100 * of_int growth + 20 / 100 * of_int valuation + 15 / 100 * of_int sentiment
           + 15 / 100 * of_int moat + 10 / 100 * of_int balance + 5 / 100 * of_int dividend"
    by (simp add: composite_short_eq add_divide_distrib)
  moreover have "composite_mid moat growth balance valuation sentiment dividend =
           30 / 100 * of_int moat + 20 / 100 * of_int valuation + 20 / 100 * of_int growth
           + 15 / 100 * of_int balance + 10 / 100 * of_int dividend + 5 / 100 * of_int sentiment"
    by (simp add: composite_mid_eq add_divide_distrib)
  moreover have "composite_long moat growth balance valuation sentiment dividend =
           30 / 100 * of_int moat + 25 / 100 * of_int balance + 15 / 100 * of_int dividend
           + 15 / 100 * of_int valuation + 10 / 100 * of_int growth + 5 / 100 * of_int sentiment"
    by (simp add: composite_long_eq add_divide_distrib)
  moreover have "0 \<le> composite_short moat growth balance valuation sentiment dividend"
    "composite_short moat growth balance valuation sentiment dividend \<le> 20"
    unfolding s using assms by (intro weighted_bounds; simp)+
  moreover have "0 \<le> composite_mid moat growth balance valuation sentiment dividend"
    "composite_mid moat growth balance valuation sentiment dividend \<le> 20"
    unfolding m using assms by (intro weighted_bounds; simp)+
  moreover have "0 \<le> composite_long moat growth balance valuation sentiment dividend"
    "composite_long moat growth balance valuation sentiment dividend \<le> 20"
    unfolding l using assms by (intro weighted_bounds; simp)+
  ultimately show ?thesis
    using weights_sum_one by simp
qed

theorem composites_in_range_witness:
  "factor_ok 20 \<and> factor_ok 0 \<and> factor_ok 7 \<and> factor_ok 13 \<and> factor_ok 12
   \<and> composite_short 20 0 7 13 12 20 = 91 / 10
   \<and> 0 \<le> composite_short 20 0 7 13 12 20 \<and> composite_short 20 0 7 13 12 20 \<le> 20
   \<and> 0 \<le> composite_mid 20 0 7 13 12 20 \<and> composite_mid 20 0 7 13 12 20 \<le> 20
   \<and> 0 \<le> composite_long 20 0 7 13 12 20 \<and> composite_long 20 0 7 13 12 20 \<le> 20"
proof -
  have f: "factor_ok 20" "factor_ok 0" "factor_ok 7" "factor_ok 13" "factor_ok 12"
    by (simp_all add: factor_ok_def)
  have v: "composite_short 20 0 7 13 12 20 = 91 / 10"
    by (simp add: composite_short_eq)
  show ?thesis
    using f v composites_in_range [OF f(1) f(2) f(3) f(4) f(5) f(1)] by simp
qed

section \<open>Rows of a store come from its checks\<close>

lemma and_then_Inr:
  "and_then m f = Inr y \<longleftrightarrow> (\<exists>x. m = Inr x \<and> f x = Inr y)"
  by (cases m) (simp_all add: and_then_def)

lemma and_then_simps [simp]:
  "and_then (Inl e) f = Inl e" "and_then (Inr x) f = f x"
  by (simp_all add: and_then_def)

lemma update_rows_Inr:
  "update_rows p f rs = Inr rs' \<Longrightarrow>
     list_all2 (\<lambda>r r'. (p r \<longrightarrow> f r = Inr r') \<and> (\<not> p r \<longrightarrow> r' = r)) rs rs'"
proof (induction rs arbitrary: rs')
  case Nil
  then show ?case by simp
next
  case (Cons r rs)
  show ?case
  proof (cases "p r")
    case True
    with Cons.prems obtain x xs where "f r = Inr x" "update_rows p f rs = Inr xs" "rs' = x # xs"
      by (auto simp: and_then_Inr)
    with True Cons.IH [of xs] show ?thesis by simp
  next
    case False
    with Cons.prems obtain xs where "update_rows p f rs = Inr xs" "rs' = r # xs"
      by (auto simp: and_then_Inr)
    with False Cons.IH [of xs] show ?thesis by simp
  qed
qed

lemma update_rows_keeps:
  assumes "update_rows p f rs = Inr rs'"
    and "\<forall>r \<in> set rs. Q r"
    and "\<And>r r'. f r = Inr r' \<Longrightarrow> Q r'"
  shows "\<forall>r' \<in> set rs'. Q r'"
proof -
  from assms(1)
  have "list_all2 (\<lambda>r r'. (p r \<longrightarrow> f r = Inr r') \<and> (\<not> p r \<longrightarrow> r' = r)) rs rs'"
    by (rule update_rows_Inr)
  then show ?thesis
    using assms(2)
  proof (induction rule: list_all2_induct)
    case Nil
    then show ?case by simp
  next
    case (Cons r rs r' rs')
    then show ?case
      using assms(3) by (cases "p r") auto
  qed
qed

lemma update_rows_untouched:
  "\<forall>r \<in> set rs. \<not> p r \<Longrightarrow> update_rows p f rs = Inr rs"
  by (induction rs) simp_all

lemma insert_unique_Inr:
  "insert_unique key r rs = Inr rs' \<Longrightarrow> rs' = rs @ [r]"
  by (simp add: insert_unique_def split: if_splits)

lemma unique_ok_Inr: "unique_ok ks x = Inr y \<Longrightarrow> y = x"
  by (simp add: unique_ok_def split: if_splits)

lemma references_ok_Inr: "references_ok ks ps x = Inr y \<Longrightarrow> y = x"
  by (simp add: references_ok_def split: if_splits)

lemma store_ticker_row_Inr: "store_ticker_row t = Inr t' \<Longrightarrow> valid_tier t'"
  by (auto simp: store_ticker_row_def split: if_splits)

lemma store_state_row_Inr:
  "store_state_row r = Inr r' \<Longrightarrow> r' = r \<and> valid_state r \<and> smallint_ok (consecutive_hot r)"
  by (auto simp: store_state_row_def split: if_splits)

lemma score_checks_Inr: "score_checks r = Inr r' \<Longrightarrow> r' = r \<and> factors_in_range r"
  by (simp add: score_checks_def factors_in_range_def split: if_splits)

lemma generated_idem: "generated (generated r) = generated r"
  by (simp add: generated_def)

lemma store_score_row_Inr:
  assumes "store_score_row r = Inr r'"
  shows "factors_in_range r' \<and> generated r' = r'"
proof -
  from assms obtain x where "score_checks (generated x) = Inr r'"
    by (auto simp: store_score_row_def and_then_Inr)
  then have "r' = generated x" "factors_in_range (generated x)"
    by (auto dest: score_checks_Inr)
  then show ?thesis
    by (simp add: generated_idem)
qed

lemma store_run_row_Inr: "store_run_row r = Inr r' \<Longrightarrow> valid_status r'"
  by (auto simp: store_run_row_def and_then_Inr valid_status_def split: if_splits)

lemma markov_set_Inr: "markov_set now s reason r = Inr r' \<Longrightarrow> valid_state r'"
  by (auto simp: markov_set_def split: option.splits dest: store_state_row_Inr)

lemma complete_set_Inr: "complete_set now a r = Inr r' \<Longrightarrow> valid_status r'"
  by (auto simp: complete_set_def split: option.splits dest: store_run_row_Inr)


lemma update_rows_from:
  assumes "update_rows p f rs = Inr rs'" and "r' \<in> set rs'"
  shows "r' \<in> set rs \<or> (\<exists>r. f r = Inr r')"
  using update_rows_keeps [OF assms(1), of "\<lambda>x. x \<in> set rs \<or> (\<exists>r. f r = Inr x)"] assms(2)
  by blast

lemma exec_tickers_from:
  assumes "exec now stmt d = Inr d'" and "t' \<in> set (tickers d')"
  shows "t' \<in> set (tickers d) \<or> (\<exists>t. store_ticker_row t = Inr t')"
proof (cases stmt)
  case (InsertTicker t)
  with assms show ?thesis
    by (auto simp: and_then_Inr dest!: insert_unique_Inr)
next
  case (UpdateTickers p f)
  with assms obtain ts where "update_rows p (\<lambda>t. store_ticker_row (f t)) (tickers d) = Inr ts"
    and "d' = d\<lparr>tickers := ts\<rparr>"
    by (auto simp: and_then_Inr dest!: unique_ok_Inr references_ok_Inr)
  with assms(2) show ?thesis
    by (auto dest: update_rows_from)
qed (use assms in \<open>auto simp: and_then_Inr Let_def\<close>)

lemma exec_states_from:
  assumes "exec now stmt d = Inr d'" and "r' \<in> set (stock_states d')"
  shows "r' \<in> set (stock_states d) \<or> (\<exists>r. store_state_row r = Inr r')"
proof (cases stmt)
  case (InsertState r)
  with assms show ?thesis
    by (auto simp: and_then_Inr dest!: insert_unique_Inr references_ok_Inr)
next
  case (UpdateStates p f)
  with assms obtain rs where "update_rows p (\<lambda>r. store_state_row (f r)) (stock_states d) = Inr rs"
    and "d' = d\<lparr>stock_states := rs\<rparr>"
    by (auto simp: and_then_Inr dest!: unique_ok_Inr references_ok_Inr)
  with assms(2) show ?thesis
    by (auto dest: update_rows_from)
next
  case (Call_update_markov_state t s reason)
  with assms obtain rs where
    "update_rows (\<lambda>r. Some (ss_ticker r) = t) (markov_set now s reason) (stock_states d) = Inr rs"
    and "d' = d\<lparr>stock_states := rs\<rparr>"
    by (auto simp: and_then_Inr update_markov_state_def)
  with assms(2) have "r' \<in> set (stock_states d) \<or> (\<exists>r. markov_set now s reason r = Inr r')"
    by (auto dest: update_rows_from)
  then show ?thesis
    by (auto simp: markov_set_def split: option.splits)
qed (use assms in \<open>auto simp: and_then_Inr Let_def\<close>)

lemma exec_scores_from:
  assumes "exec now stmt d = Inr d'" and "r' \<in> set (stock_scores d')"
  shows "r' \<in> set (stock_scores d) \<or> (\<exists>r. store_score_row r = Inr r')"
proof (cases stmt)
  case (InsertScore r)
  with assms show ?thesis
    by (auto simp: and_then_Inr dest!: insert_unique_Inr references_ok_Inr)
next
  case (UpdateScores p f)
  with assms obtain rs where "update_rows p (\<lambda>r. store_score_row (f r)) (stock_scores d) = Inr rs"
    and "d' = d\<lparr>stock_scores := rs\<rparr>"
    by (auto simp: and_then_Inr dest!: unique_ok_Inr references_ok_Inr)
  with assms(2) show ?thesis
    by (auto dest: update_rows_from)
qed (use assms in \<open>auto simp: and_then_Inr Let_def\<close>)

lemma exec_runs_from:
  assumes "exec now stmt d = Inr d'" and "r' \<in> set (pipeline_runs d')"
  shows "r' \<in> set (pipeline_runs d) \<or> (\<exists>r. store_run_row r = Inr r')"
proof (cases stmt)
  case (InsertRun r)
  with assms show ?thesis
    by (auto simp: and_then_Inr dest!: insert_unique_Inr)
next
  case (UpdateRuns p f)
  with assms obtain rs where "update_rows p (\<lambda>r. store_run_row (f r)) (pipeline_runs d) = Inr rs"
    and "d' = d\<lparr>pipeline_runs := rs\<rparr>"
    by (auto simp: and_then_Inr dest!: unique_ok_Inr)
  with assms(2) show ?thesis
    by (auto dest: update_rows_from)
next
  case (Call_start_pipeline_run i t)
  with assms show ?thesis
    by (auto simp: and_then_Inr start_pipeline_run_def split: option.splits
        dest!: insert_unique_Inr)
next
  case (Call_complete_pipeline_run i a)
  with assms obtain rs where
    "update_rows (\<lambda>r. Some (run_id r) = i) (complete_set now a) (pipeline_runs d) = Inr rs"
    and "d' = d\<lparr>pipeline_runs := rs\<rparr>"
    by (auto simp: and_then_Inr complete_pipeline_run_def)
  with assms(2) have "r' \<in> set (pipeline_runs d) \<or> (\<exists>r. complete_set now a r = Inr r')"
    by (auto dest: update_rows_from)
  then show ?thesis
    by (auto simp: complete_set_def split: option.splits)
next
  case Call_cleanup_old_data
  with assms show ?thesis
    by (auto simp: cleanup_old_data_def)
qed (use assms in \<open>auto simp: and_then_Inr Let_def\<close>)

lemma exec_ranges_ok:
  assumes "ranges_ok d" and "exec now stmt d = Inr d'"
  shows "ranges_ok d'"
  unfolding ranges_ok_def
proof (intro conjI ballI)
  fix r assume "r \<in> set (stock_scores d')"
  with assms show "factors_in_range r"
    by (auto simp: ranges_ok_def dest: exec_scores_from store_score_row_Inr)
next
  fix r assume "r \<in> set (stock_states d')"
  with assms show "valid_state r"
    by (auto simp: ranges_ok_def dest: exec_states_from store_state_row_Inr)
next
  fix t assume "t \<in> set (tickers d')"
  with assms show "valid_tier t"
    by (auto simp: ranges_ok_def dest: exec_tickers_from store_ticker_row_Inr)
qed

lemma exec_derived_ok:
  assumes "derived_ok d" and "exec now stmt d = Inr d'"
  shows "derived_ok d'"
  using assms by (auto simp: derived_ok_def dest: exec_scores_from store_score_row_Inr)

lemma exec_status_ok:
  assumes "status_ok d" and "exec now stmt d = Inr d'"
  shows "status_ok d'"
  using assms by (auto simp: status_ok_def dest: exec_runs_from store_run_row_Inr)

lemma reachable_ranges_ok: "reachable d \<Longrightarrow> ranges_ok d"
proof (induction rule: reachable.induct)
  case reachable_empty
  show ?case by (simp add: ranges_ok_def empty_db_def)
next
  case (reachable_exec d now stmt d')
  then show ?case by (blast intro: exec_ranges_ok)
qed

lemma reachable_derived_ok: "reachable d \<Longrightarrow> derived_ok d"
proof (induction rule: reachable.induct)
  case reachable_empty
  show ?case by (simp add: derived_ok_def empty_db_def)
next
  case (reachable_exec d now stmt d')
  then show ?case by (blast intro: exec_derived_ok)
qed

lemma reachable_status_ok: "reachable d \<Longrightarrow> status_ok d"
proof (induction rule: reachable.induct)
  case reachable_empty
  show ?case by (simp add: status_ok_def empty_db_def)
next
  case (reachable_exec d now stmt d')
  then show ?case by (blast intro: exec_status_ok)
qed

section \<open>Ranges, generated columns and flags\<close>

lemma round_half_away_of_int: "round_half_away (of_int n) = n"
proof (cases "0 \<le> n")
  case True
  then have "round_half_away (of_int n) = \<lfloor>(of_int n :: rat) + 1 / 2\<rfloor>"
    by (simp add: round_half_away_def)
  also have "\<dots> = n"
    by (simp add: floor_eq_iff)
  finally show ?thesis .
next
  case False
  then have "round_half_away (of_int n) = - \<lfloor>(of_int (- n) :: rat) + 1 / 2\<rfloor>"
    by (simp add: round_half_away_def)
  also have "\<lfloor>(of_int (- n) :: rat) + 1 / 2\<rfloor> = - n"
    by (simp add: floor_eq_iff)
  finally show ?thesis by simp
qed

lemma numeric_coerce_exact:
  assumes "\<bar>n\<bar> < 10 ^ p"
  shows "numeric_coerce p s (of_int n / 10 ^ s) = Inr (of_int n / 10 ^ s)"
proof -
  have "round_half_away (of_int n / 10 ^ s * 10 ^ s) = n"
    by (simp add: round_half_away_of_int)
  with assms show ?thesis
    by (simp add: numeric_coerce_def Let_def)
qed

lemma numeric_5_2_values:
  "numeric_coerce 5 2 0 = Inr 0" "numeric_coerce 5 2 14 = Inr 14"
  "numeric_coerce 5 2 20 = Inr 20" "numeric_coerce 5 2 (139 / 10) = Inr (139 / 10)"
  using numeric_coerce_exact [of 0 5 2] numeric_coerce_exact [of 1400 5 2]
    numeric_coerce_exact [of 2000 5 2] numeric_coerce_exact [of 1390 5 2]
  by simp_all

lemma store_aapl_score: "store_score_row aapl_score = Inr aapl_score"
  by (simp add: store_score_row_def aapl_score_def numeric_5_2_values
      numeric_coerce_opt_def generated_def score_checks_def between_def)

lemma aapl_db_steps:
  "exec 0 (InsertTicker aapl) empty_db = Inr (empty_db\<lparr>tickers := [aapl]\<rparr>)"
  "exec 0 (InsertState aapl_state) (empty_db\<lparr>tickers := [aapl]\<rparr>)
     = Inr (empty_db\<lparr>tickers := [aapl], stock_states := [aapl_state]\<rparr>)"
  "exec 0 (InsertScore aapl_score) (empty_db\<lparr>tickers := [aapl], stock_states := [aapl_state]\<rparr>)
     = Inr aapl_db"
    apply (simp add: store_ticker_row_def valid_tier_def aapl_def insert_unique_def empty_db_def)
   apply (simp add: store_state_row_def valid_state_def smallint_ok_def aapl_def aapl_state_def
      insert_unique_def references_ok_def empty_db_def)
  apply (simp add: store_aapl_score insert_unique_def references_ok_def empty_db_def aapl_db_def)
  apply (simp add: aapl_def aapl_score_def)
  done

lemma reachable_aapl_db: "reachable aapl_db"
  using reachable_exec [OF reachable_exec [OF reachable_exec [OF reachable_empty aapl_db_steps(1)] aapl_db_steps(2)] aapl_db_steps(3)] .


lemma generated_fixed:
  assumes "generated r = r"
  shows "total_score r = moat_score r + growth_score r + balance_score r
             + valuation_score r + sentiment_score r + dividend_score r"
    and "is_triple_crown r = (mfses_short r \<ge> 14 \<and> mfses_mid r \<ge> 14 \<and> mfses_long r \<ge> 14)"
    and "is_value_trap r = (valuation_score r \<ge> 18 \<and> (moat_score r < 12 \<or> balance_score r < 10))"
    and "is_expensive_growth r = (growth_score r \<ge> 18 \<and> valuation_score r < 8)"
proof -
  have "total_score (generated r) = moat_score r + growth_score r + balance_score r
             + valuation_score r + sentiment_score r + dividend_score r"
    "is_triple_crown (generated r) = (mfses_short r \<ge> 14 \<and> mfses_mid r \<ge> 14 \<and> mfses_long r \<ge> 14)"
    "is_value_trap (generated r) = (valuation_score r \<ge> 18 \<and> (moat_score r < 12 \<or> balance_score r < 10))"
    "is_expensive_growth (generated r) = (growth_score r \<ge> 18 \<and> valuation_score r < 8)"
    by (simp_all add: generated_def)
  then show "total_score r = moat_score r + growth_score r + balance_score r
             + valuation_score r + sentiment_score r + dividend_score r"
    and "is_triple_crown r = (mfses_short r \<ge> 14 \<and> mfses_mid r \<ge> 14 \<and> mfses_long r \<ge> 14)"
    and "is_value_trap r = (valuation_score r \<ge> 18 \<and> (moat_score r < 12 \<or> balance_score r < 10))"
    and "is_expensive_growth r = (growth_score r \<ge> 18 \<and> valuation_score r < 8)"
    by (simp_all only: assms)
qed

lemma crown_step:
  "exec 7 (UpdateScores (\<lambda>r. sc_ticker r = ''AAPL'') crown) aapl_db
     = Inr crowned_db"
  by (simp add: crowned_db_def aapl_crowned_def aapl_db_def aapl_score_def aapl_def crown_def store_score_row_def
      numeric_5_2_values numeric_coerce_opt_def generated_def score_checks_def between_def
      unique_ok_def references_ok_def)

text \<open>
  Claim C9. In every store that statements can produce, each of the six factor scores of
  every score row lies in \<open>0..20\<close>, the state of every state row is one of HOT, WARM,
  COLD and FROZEN, and the tier of every ticker lies in \<open>1..4\<close>; whatever statement is
  run next, the store it leaves has these ranges again.
\<close>

theorem ranges_hold_after_every_statement:
  assumes "reachable d"
  shows "ranges_ok d \<and> (\<forall>now stmt d'. exec now stmt d = Inr d' \<longrightarrow> ranges_ok d')"
  using assms by (blast intro: reachable_ranges_ok exec_ranges_ok)

theorem ranges_hold_after_every_statement_witness:
  "reachable aapl_db \<and> ranges_ok aapl_db
   \<and> exec 5 (UpdateScores (\<lambda>r. True) (\<lambda>r. r\<lparr>moat_score := 21\<rparr>)) aapl_db
       = Inl (check_violation ''valid_moat'')
   \<and> exec 5 (UpdateStates (\<lambda>r. True) (\<lambda>r. r\<lparr>current_state := ''LUKEWARM''\<rparr>)) aapl_db
       = Inl (check_violation ''valid_state'')
   \<and> exec 5 (UpdateTickers (\<lambda>r. True) (\<lambda>r. r\<lparr>tier := 5\<rparr>)) aapl_db
       = Inl (check_violation ''valid_tier'')
   \<and> exec 7 (UpdateScores (\<lambda>r. sc_ticker r = ''AAPL'') crown) aapl_db = Inr crowned_db
   \<and> ranges_ok crowned_db"
proof -
  have "exec 5 (UpdateScores (\<lambda>r. True) (\<lambda>r. r\<lparr>moat_score := 21\<rparr>)) aapl_db
       = Inl (check_violation ''valid_moat'')"
    by (simp add: aapl_db_def aapl_score_def store_score_row_def numeric_5_2_values
        numeric_coerce_opt_def generated_def score_checks_def between_def)
  moreover have "exec 5 (UpdateStates (\<lambda>r. True) (\<lambda>r. r\<lparr>current_state := ''LUKEWARM''\<rparr>)) aapl_db
       = Inl (check_violation ''valid_state'')"
    by (simp add: aapl_db_def aapl_state_def store_state_row_def smallint_ok_def valid_state_def)
  moreover have "exec 5 (UpdateTickers (\<lambda>r. True) (\<lambda>r. r\<lparr>tier := 5\<rparr>)) aapl_db
       = Inl (check_violation ''valid_tier'')"
    by (simp add: aapl_db_def aapl_def store_ticker_row_def valid_tier_def)
  ultimately show ?thesis
    using ranges_hold_after_every_statement [OF reachable_aapl_db] reachable_aapl_db crown_step
    by blast
qed

text \<open>
  Claim C3. For every stored score row the three flags equal their defining predicates:
  triple crown iff the three composites are at least 14, value trap iff the valuation
  score is at least 18 and the moat score is below 12 or the balance score below 10,
  expensive growth iff the growth score is at least 18 and the valuation score below 8.
  In particular the composites (14, 14, 14) give a triple crown and (13.9, 20, 20) do
  not; valuation 18, moat 11, balance 15 is a value trap and valuation 17, moat 5,
  balance 5 is not.
\<close>

theorem classifiers_equal_their_predicates:
  assumes "reachable d" and "r \<in> set (stock_scores d)"
  shows "is_triple_crown r = (mfses_short r \<ge> 14 \<and> mfses_mid r \<ge> 14 \<and> mfses_long r \<ge> 14)
       \<and> is_value_trap r = (valuation_score r \<ge> 18 \<and> (moat_score r < 12 \<or> balance_score r < 10))
       \<and> is_expensive_growth r = (growth_score r \<ge> 18 \<and> valuation_score r < 8)
       \<and> is_triple_crown (generated (x\<lparr>mfses_short := 14, mfses_mid := 14, mfses_long := 14\<rparr>))
       \<and> \<not> is_triple_crown (generated (x\<lparr>mfses_short := 139 / 10, mfses_mid := 20, mfses_long := 20\<rparr>))
       \<and> is_value_trap (generated (x\<lparr>valuation_score := 18, moat_score := 11, balance_score := 15\<rparr>))
       \<and> \<not> is_value_trap (generated (x\<lparr>valuation_score := 17, moat_score := 5, balance_score := 5\<rparr>))"
proof -
  from assms have "generated r = r"
    using reachable_derived_ok by (auto simp: derived_ok_def)
  then show ?thesis
    using generated_fixed(2,3,4) [of r] by (simp add: generated_def)
qed

lemma reachable_crowned_db: "reachable crowned_db"
  using reachable_exec [OF reachable_aapl_db crown_step] .

theorem classifiers_equal_their_predicates_witness:
  "reachable crowned_db \<and> aapl_crowned \<in> set (stock_scores crowned_db)
   \<and> mfses_short aapl_crowned = 14 \<and> mfses_mid aapl_crowned = 14 \<and> mfses_long aapl_crowned = 14
   \<and> valuation_score aapl_crowned = 0 \<and> growth_score aapl_crowned = 0
   \<and> is_triple_crown aapl_crowned \<and> \<not> is_value_trap aapl_crowned
   \<and> \<not> is_expensive_growth aapl_crowned"
proof -
  have m: "aapl_crowned \<in> set (stock_scores crowned_db)"
    by (simp add: crowned_db_def)
  have v: "mfses_short aapl_crowned = 14" "mfses_mid aapl_crowned = 14"
    "mfses_long aapl_crowned = 14" "valuation_score aapl_crowned = 0"
    "growth_score aapl_crowned = 0"
    by (simp_all add: aapl_crowned_def aapl_score_def)
  show ?thesis
    using classifiers_equal_their_predicates [OF reachable_crowned_db m] reachable_crowned_db m v
    by simp
qed

text \<open>
  Claim C4, as stated, fails: the three composites are ordinary columns. The statement
  \<^verbatim>\<open>UPDATE stock_scores SET mfses_short = 14, mfses_mid = 14, mfses_long = 14
  WHERE ticker = 'AAPL'\<close> is accepted, leaves the six factor scores as they were (and
  the price, which is a column of \<^verbatim>\<open>stock_raw_data\<close>) and changes the composites
  and, with them, the triple-crown flag.
\<close>

theorem composites_set_independently:
  "reachable aapl_db
   \<and> exec 7 (UpdateScores (\<lambda>r. sc_ticker r = ''AAPL'') crown) aapl_db = Inr crowned_db
   \<and> stock_scores aapl_db = [aapl_score] \<and> stock_scores crowned_db = [aapl_crowned]
   \<and> moat_score aapl_crowned = moat_score aapl_score
   \<and> growth_score aapl_crowned = growth_score aapl_score
   \<and> balance_score aapl_crowned = balance_score aapl_score
   \<and> valuation_score aapl_crowned = valuation_score aapl_score
   \<and> sentiment_score aapl_crowned = sentiment_score aapl_score
   \<and> dividend_score aapl_crowned = dividend_score aapl_score
   \<and> mfses_short aapl_score = 0 \<and> mfses_short aapl_crowned = 14
   \<and> mfses_mid aapl_score = 0 \<and> mfses_mid aapl_crowned = 14
   \<and> mfses_long aapl_score = 0 \<and> mfses_long aapl_crowned = 14
   \<and> \<not> is_triple_crown aapl_score \<and> is_triple_crown aapl_crowned"
proof -
  have "stock_scores aapl_db = [aapl_score]" "stock_scores crowned_db = [aapl_crowned]"
    by (simp_all add: aapl_db_def crowned_db_def)
  then show ?thesis
    using reachable_aapl_db crown_step by (simp add: aapl_crowned_def aapl_score_def)
qed

text \<open>
  Claim C4, amended. In every store that statements can produce, the total score of a
  score row is the sum of its six factor scores (between 0 and 120), the value-trap and
  expensive-growth flags are the stated functions of its factor scores, and the
  triple-crown flag is the stated function of its three stored composites; after any
  further statement the four generated columns of every row are again what the other
  columns of that row give.
\<close>

theorem generated_columns_follow_the_row:
  assumes "reachable d" and "r \<in> set (stock_scores d)"
  shows "total_score r = moat_score r + growth_score r + balance_score r
             + valuation_score r + sentiment_score r + dividend_score r
       \<and> 0 \<le> total_score r \<and> total_score r \<le> 120
       \<and> is_value_trap r = (valuation_score r \<ge> 18 \<and> (moat_score r < 12 \<or> balance_score r < 10))
       \<and> is_expensive_growth r = (growth_score r \<ge> 18 \<and> valuation_score r < 8)
       \<and> is_triple_crown r = (mfses_short r \<ge> 14 \<and> mfses_mid r \<ge> 14 \<and> mfses_long r \<ge> 14)
       \<and> (\<forall>now stmt d' r'. exec now stmt d = Inr d' \<longrightarrow> r' \<in> set (stock_scores d')
             \<longrightarrow> generated r' = r')"
proof -
  from assms have g: "generated r = r"
    using reachable_derived_ok by (auto simp: derived_ok_def)
  from assms have "factors_in_range r"
    using reachable_ranges_ok by (auto simp: ranges_ok_def)
  then have "0 \<le> total_score r \<and> total_score r \<le> 120"
    unfolding generated_fixed(1) [OF g] by (simp add: factors_in_range_def between_def)
  moreover have "\<forall>now stmt d' r'. exec now stmt d = Inr d' \<longrightarrow> r' \<in> set (stock_scores d')
             \<longrightarrow> generated r' = r'"
    using exec_derived_ok [OF reachable_derived_ok [OF assms(1)]] by (auto simp: derived_ok_def)
  ultimately show ?thesis
    using generated_fixed [OF g] by simp
qed

theorem generated_columns_follow_the_row_witness:
  "reachable aapl_db \<and> aapl_score \<in> set (stock_scores aapl_db)
   \<and> total_score aapl_score = 12 \<and> sentiment_score aapl_score = 12
   \<and> \<not> is_value_trap aapl_score \<and> \<not> is_expensive_growth aapl_score
   \<and> \<not> is_triple_crown aapl_score
   \<and> exec 7 (UpdateScores (\<lambda>r. sc_ticker r = ''AAPL'') crown) aapl_db = Inr crowned_db
   \<and> aapl_crowned \<in> set (stock_scores crowned_db)
   \<and> generated aapl_crowned = aapl_crowned"
proof -
  have m: "aapl_score \<in> set (stock_scores aapl_db)" "aapl_crowned \<in> set (stock_scores crowned_db)"
    by (simp_all add: aapl_db_def crowned_db_def)
  have v: "total_score aapl_score = 12" "sentiment_score aapl_score = 12"
    "\<not> is_value_trap aapl_score" "\<not> is_expensive_growth aapl_score" "\<not> is_triple_crown aapl_score"
    by (simp_all add: aapl_score_def)
  show ?thesis
    using generated_columns_follow_the_row [OF reachable_aapl_db m(1)] reachable_aapl_db m v
      crown_step
    by blast
qed

section \<open>State transitions\<close>

lemma update_rows_keys:
  assumes "update_rows p f rs = Inr rs'" and "\<And>r r'. f r = Inr r' \<Longrightarrow> key r' = key r"
  shows "map key rs' = map key rs"
proof -
  from assms(1)
  have "list_all2 (\<lambda>r r'. (p r \<longrightarrow> f r = Inr r') \<and> (\<not> p r \<longrightarrow> r' = r)) rs rs'"
    by (rule update_rows_Inr)
  then show ?thesis
  proof (induction rule: list_all2_induct)
    case Nil
    show ?case by simp
  next
    case (Cons r rs r' rs')
    then show ?case
      using assms(2) by (cases "p r") auto
  qed
qed

lemma update_rows_one:
  assumes "distinct (map key rs)" and "r \<in> set rs"
  shows "update_rows (\<lambda>x. key x = key r) f rs =
           and_then (f r) (\<lambda>r'. Inr (map (\<lambda>x. if key x = key r then r' else x) rs))"
  using assms
proof (induction rs)
  case Nil
  then show ?case by simp
next
  case (Cons a rs)
  show ?case
  proof (cases "a = r")
    case True
    with Cons.prems have "key r \<notin> key ` set rs"
      by simp
    then have "\<forall>x \<in> set rs. key x \<noteq> key r"
      by (metis imageI)
    then have "update_rows (\<lambda>x. key x = key r) f rs = Inr rs"
      and "map (\<lambda>x. if key x = key r then y else x) rs = rs" for y
      by (simp_all add: update_rows_untouched map_idI)
    with True show ?thesis
      by (cases "f r") simp_all
  next
    case False
    with Cons.prems have "r \<in> set rs" "key a \<noteq> key r" "distinct (map key rs)"
      by auto
    with Cons.IH show ?thesis
      by (cases "f r") simp_all
  qed
qed

lemma markov_set_key: "markov_set now s reason r = Inr r' \<Longrightarrow> ss_ticker r' = ss_ticker r"
  by (auto simp: markov_set_def store_state_row_def split: option.splits if_splits)

lemma complete_set_key: "complete_set now a r = Inr r' \<Longrightarrow> run_id r' = run_id r"
  by (auto simp: complete_set_def store_run_row_def and_then_Inr split: option.splits if_splits)

lemma unique_ok_distinct: "unique_ok ks x = Inr y \<Longrightarrow> distinct ks \<and> y = x"
  by (simp add: unique_ok_def split: if_splits)

lemma insert_unique_distinct:
  "insert_unique key r rs = Inr rs' \<Longrightarrow> distinct (map key rs) \<Longrightarrow> distinct (map key rs')"
  by (auto simp: insert_unique_def split: if_splits)

lemma exec_keys_unique:
  assumes "keys_unique d" and "exec now stmt d = Inr d'"
  shows "keys_unique d'"
proof (cases stmt)
  case (InsertTicker t)
  with assms show ?thesis
    by (auto simp: keys_unique_def and_then_Inr dest: insert_unique_distinct)
next
  case (UpdateTickers p f)
  with assms show ?thesis
    by (auto simp: keys_unique_def and_then_Inr dest!: references_ok_Inr unique_ok_distinct)
next
  case (InsertState r)
  with assms show ?thesis
    by (auto simp: keys_unique_def and_then_Inr dest!: references_ok_Inr dest: insert_unique_distinct)
next
  case (UpdateStates p f)
  with assms show ?thesis
    by (auto simp: keys_unique_def and_then_Inr dest!: references_ok_Inr unique_ok_distinct)
next
  case (InsertScore r)
  with assms show ?thesis
    by (auto simp: keys_unique_def and_then_Inr dest!: references_ok_Inr dest: insert_unique_distinct)
next
  case (UpdateScores p f)
  with assms show ?thesis
    by (auto simp: keys_unique_def and_then_Inr dest!: references_ok_Inr unique_ok_distinct)
next
  case (InsertRun r)
  with assms show ?thesis
    by (auto simp: keys_unique_def and_then_Inr dest: insert_unique_distinct)
next
  case (UpdateRuns p f)
  with assms show ?thesis
    by (auto simp: keys_unique_def and_then_Inr dest!: unique_ok_distinct)
next
  case (Call_update_markov_state t s reason)
  with assms obtain rs where
    u: "update_rows (\<lambda>r. Some (ss_ticker r) = t) (markov_set now s reason) (stock_states d) = Inr rs"
    and d': "d' = d\<lparr>stock_states := rs\<rparr>"
    by (auto simp: and_then_Inr update_markov_state_def)
  have "map ss_ticker rs = map ss_ticker (stock_states d)"
    using u by (rule update_rows_keys) (rule markov_set_key)
  with assms(1) d' show ?thesis
    by (simp add: keys_unique_def)
next
  case (Call_start_pipeline_run i t)
  with assms show ?thesis
    by (auto simp: keys_unique_def and_then_Inr start_pipeline_run_def split: option.splits
        dest: insert_unique_distinct)
next
  case (Call_complete_pipeline_run i a)
  with assms obtain rs where
    u: "update_rows (\<lambda>r. Some (run_id r) = i) (complete_set now a) (pipeline_runs d) = Inr rs"
    and d': "d' = d\<lparr>pipeline_runs := rs\<rparr>"
    by (auto simp: and_then_Inr complete_pipeline_run_def)
  have "map run_id rs = map run_id (pipeline_runs d)"
    using u by (rule update_rows_keys) (rule complete_set_key)
  with assms(1) d' show ?thesis
    by (simp add: keys_unique_def)
qed (use assms in \<open>auto simp: keys_unique_def Let_def cleanup_old_data_def distinct_map_filter\<close>)

lemma reachable_keys_unique: "reachable d \<Longrightarrow> keys_unique d"
proof (induction rule: reachable.induct)
  case reachable_empty
  show ?case by (simp add: keys_unique_def empty_db_def)
next
  case (reachable_exec d now stmt d')
  then show ?case by (blast intro: exec_keys_unique)
qed


lemma exec_counters_ok:
  assumes "counters_ok d" and "exec now stmt d = Inr d'"
  shows "counters_ok d'"
  using assms by (auto simp: counters_ok_def dest: exec_states_from store_state_row_Inr)

lemma reachable_counters_ok: "reachable d \<Longrightarrow> counters_ok d"
proof (induction rule: reachable.induct)
  case reachable_empty
  show ?case by (simp add: counters_ok_def empty_db_def)
next
  case (reachable_exec d now stmt d')
  then show ?case by (blast intro: exec_counters_ok)
qed

lemma exec_markov_one:
  assumes "keys_unique d" and "r \<in> set (stock_states d)"
  shows "exec now (Call_update_markov_state (Some (ss_ticker r)) s reason) d =
           and_then (markov_set now s reason r) (\<lambda>r'.
             Inr (d\<lparr>stock_states :=
               map (\<lambda>x. if ss_ticker x = ss_ticker r then r' else x) (stock_states d)\<rparr>))"
proof -
  from assms have "distinct (map ss_ticker (stock_states d))"
    by (simp add: keys_unique_def)
  from update_rows_one [OF this assms(2), of "markov_set now s reason"] show ?thesis
    by (cases "markov_set now s reason r") (simp_all add: update_markov_state_def)
qed

lemma markov_set_valid:
  assumes "s \<in> set [''HOT'', ''WARM'', ''COLD'', ''FROZEN'']"
    and "smallint_ok (consecutive_hot r)"
    and "s = ''HOT'' \<longrightarrow> consecutive_hot r < 32767"
  shows "markov_set now (Some s) reason r = Inr (r\<lparr>
          previous_state := Some (current_state r),
          current_state := s,
          last_updated := now,
          next_update_due := now + minutes
            (if s = ''HOT'' then 30 else if s = ''WARM'' then 120
             else if s = ''COLD'' then 360 else 1440),
          promotion_reason := (if s = ''HOT'' \<or> s = ''WARM'' then reason else None),
          promotion_expires := (if s = ''HOT'' then Some (now + hours 24) else None),
          consecutive_hot := (if s = ''HOT'' then consecutive_hot r + 1 else 0)\<rparr>)"
proof -
  from assms(1) consider "s = ''HOT''" | "s = ''WARM''" | "s = ''COLD''" | "s = ''FROZEN''"
    by auto
  then show ?thesis
  proof cases
    case 1
    with assms(2,3) show ?thesis
      by (simp add: markov_set_def store_state_row_def valid_state_def smallint_ok_def
          interval_minutes_def)
  next
    case 2
    then show ?thesis
      by (simp add: markov_set_def store_state_row_def valid_state_def smallint_ok_def
          interval_minutes_def)
  next
    case 3
    then show ?thesis
      by (simp add: markov_set_def store_state_row_def valid_state_def smallint_ok_def
          interval_minutes_def)
  next
    case 4
    then show ?thesis
      by (simp add: markov_set_def store_state_row_def valid_state_def smallint_ok_def
          interval_minutes_def)
  qed
qed

lemma markov_set_unrecognized:
  assumes "s \<notin> set [''HOT'', ''WARM'', ''COLD'', ''FROZEN'']"
  shows "markov_set now (Some s) reason r = Inl (check_violation ''valid_state'')"
  using assms
  by (simp add: markov_set_def store_state_row_def valid_state_def smallint_ok_def)


lemma map_replace_twice:
  assumes "key a = k"
  shows "map (\<lambda>x. if key x = k then b else x) (map (\<lambda>x. if key x = k then a else x) rs)
           = map (\<lambda>x. if key x = k then b else x) rs"
  using assms by (induction rs) simp_all

text \<open>
  Claim C1, amended. For every instrument with a state row, a transition to one of HOT,
  WARM, COLD, FROZEN (to HOT only while \<^verbatim>\<open>consecutive_hot\<close> is below 32767) replaces
  exactly that row: the previous state becomes the old current state, \<^verbatim>\<open>last_updated\<close>
  becomes now, \<^verbatim>\<open>next_update_due\<close> becomes now plus 30, 120, 360 or 1440 minutes, the
  promotion reason is the given reason for HOT and WARM and NULL otherwise, the promotion
  expiry is now plus 24 hours for HOT and NULL otherwise, and \<^verbatim>\<open>consecutive_hot\<close> is
  one more for HOT and 0 otherwise. Two transitions to HOT in succession therefore add 2
  to \<^verbatim>\<open>consecutive_hot\<close> and leave \<^verbatim>\<open>next_update_due\<close> at 30 minutes after the second
  call. For any other state name the interval computed is 360 minutes, but the constraint
  \<^verbatim>\<open>valid_state\<close> refuses the new row and the call raises.
\<close>

theorem transition_sets_the_row:
  assumes "reachable d" and "r \<in> set (stock_states d)"
  shows "(s \<in> set [''HOT'', ''WARM'', ''COLD'', ''FROZEN'']
            \<and> (s = ''HOT'' \<longrightarrow> consecutive_hot r < 32767) \<longrightarrow>
          exec now (Call_update_markov_state (Some (ss_ticker r)) (Some s) reason) d =
            Inr (d\<lparr>stock_states := map (\<lambda>x. if ss_ticker x = ss_ticker r then r\<lparr>
                previous_state := Some (current_state r),
                current_state := s,
                last_updated := now,
                next_update_due := now + minutes
                  (if s = ''HOT'' then 30 else if s = ''WARM'' then 120
                   else if s = ''COLD'' then 360 else 1440),
                promotion_reason := (if s = ''HOT'' \<or> s = ''WARM'' then reason else None),
                promotion_expires := (if s = ''HOT'' then Some (now + hours 24) else None),
                consecutive_hot := (if s = ''HOT'' then consecutive_hot r + 1 else 0)\<rparr>
              else x) (stock_states d)\<rparr>))
       \<and> (consecutive_hot r < 32766 \<longrightarrow>
          (\<exists>d1. exec now (Call_update_markov_state (Some (ss_ticker r)) (Some ''HOT'') reason) d
                  = Inr d1
             \<and> exec later (Call_update_markov_state (Some (ss_ticker r)) (Some ''HOT'') reason) d1 =
                Inr (d\<lparr>stock_states := map (\<lambda>x. if ss_ticker x = ss_ticker r then r\<lparr>
                    previous_state := Some ''HOT'',
                    current_state := ''HOT'',
                    last_updated := later,
                    next_update_due := later + minutes 30,
                    promotion_reason := reason,
                    promotion_expires := Some (later + hours 24),
                    consecutive_hot := consecutive_hot r + 2\<rparr>
                  else x) (stock_states d)\<rparr>)))
       \<and> (s \<notin> set [''HOT'', ''WARM'', ''COLD'', ''FROZEN''] \<longrightarrow>
            interval_minutes (Some s) = 360
          \<and> exec now (Call_update_markov_state (Some (ss_ticker r)) (Some s) reason) d
              = Inl (check_violation ''valid_state''))"
proof (intro conjI impI)
  have ku: "keys_unique d" and small: "smallint_ok (consecutive_hot r)"
    using assms reachable_keys_unique reachable_counters_ok by (auto simp: counters_ok_def)
  {
    assume "s \<in> set [''HOT'', ''WARM'', ''COLD'', ''FROZEN'']
            \<and> (s = ''HOT'' \<longrightarrow> consecutive_hot r < 32767)"
    then show "exec now (Call_update_markov_state (Some (ss_ticker r)) (Some s) reason) d =
            Inr (d\<lparr>stock_states := map (\<lambda>x. if ss_ticker x = ss_ticker r then r\<lparr>
                previous_state := Some (current_state r),
                current_state := s,
                last_updated := now,
                next_update_due := now + minutes
                  (if s = ''HOT'' then 30 else if s = ''WARM'' then 120
                   else if s = ''COLD'' then 360 else 1440),
                promotion_reason := (if s = ''HOT'' \<or> s = ''WARM'' then reason else None),
                promotion_expires := (if s = ''HOT'' then Some (now + hours 24) else None),
                consecutive_hot := (if s = ''HOT'' then consecutive_hot r + 1 else 0)\<rparr>
              else x) (stock_states d)\<rparr>)"
      unfolding exec_markov_one [OF ku assms(2)]
      by (subst markov_set_valid [OF _ small]) simp_all
  }
  {
    assume s: "s \<notin> set [''HOT'', ''WARM'', ''COLD'', ''FROZEN'']"
    then show "interval_minutes (Some s) = 360"
      by (simp add: interval_minutes_def)
    from s show "exec now (Call_update_markov_state (Some (ss_ticker r)) (Some s) reason) d
              = Inl (check_violation ''valid_state'')"
      unfolding exec_markov_one [OF ku assms(2)]
      by (subst markov_set_unrecognized) simp_all
  }
  {
    assume c: "consecutive_hot r < 32766"
    define r1 where "r1 = r\<lparr>
                previous_state := Some (current_state r),
                current_state := ''HOT'',
                last_updated := now,
                next_update_due := now + minutes 30,
                promotion_reason := reason,
                promotion_expires := Some (now + hours 24),
                consecutive_hot := consecutive_hot r + 1\<rparr>"
    define d1 where "d1 = d\<lparr>stock_states :=
        map (\<lambda>x. if ss_ticker x = ss_ticker r then r1 else x) (stock_states d)\<rparr>"
    have m1: "markov_set now (Some ''HOT'') reason r = Inr r1"
      using c by (subst markov_set_valid [OF _ small]) (simp_all add: r1_def)
    have e1: "exec now (Call_update_markov_state (Some (ss_ticker r)) (Some ''HOT'') reason) d
                = Inr d1"
      unfolding exec_markov_one [OF ku assms(2)] m1 by (simp add: d1_def)
    have k1: "ss_ticker r1 = ss_ticker r"
      by (simp add: r1_def)
    have ku1: "keys_unique d1"
      using exec_keys_unique [OF ku e1] .
    have in1: "r1 \<in> set (stock_states d1)"
      using assms(2) by (force simp: d1_def)
    have small1: "smallint_ok (consecutive_hot r1)"
      using small c by (simp add: r1_def smallint_ok_def)
    have m2: "markov_set later (Some ''HOT'') reason r1 = Inr (r\<lparr>
                    previous_state := Some ''HOT'',
                    current_state := ''HOT'',
                    last_updated := later,
                    next_update_due := later + minutes 30,
                    promotion_reason := reason,
                    promotion_expires := Some (later + hours 24),
                    consecutive_hot := consecutive_hot r + 2\<rparr>)"
      using c by (subst markov_set_valid [OF _ small1]) (simp_all add: r1_def)
    define r2 where "r2 = r\<lparr>
                    previous_state := Some ''HOT'',
                    current_state := ''HOT'',
                    last_updated := later,
                    next_update_due := later + minutes 30,
                    promotion_reason := reason,
                    promotion_expires := Some (later + hours 24),
                    consecutive_hot := consecutive_hot r + 2\<rparr>"
    have "exec later (Call_update_markov_state (Some (ss_ticker r)) (Some ''HOT'') reason) d1 =
            Inr (d1\<lparr>stock_states :=
              map (\<lambda>x. if ss_ticker x = ss_ticker r then r2 else x) (stock_states d1)\<rparr>)"
      using exec_markov_one [OF ku1 in1, of later "Some ''HOT''" reason]
      unfolding k1 m2 by (simp add: r2_def)
    also have "d1\<lparr>stock_states :=
              map (\<lambda>x. if ss_ticker x = ss_ticker r then r2 else x) (stock_states d1)\<rparr>
          = d\<lparr>stock_states :=
              map (\<lambda>x. if ss_ticker x = ss_ticker r then r2 else x) (stock_states d)\<rparr>"
      unfolding d1_def
      by (simp del: map_map add: map_replace_twice [of ss_ticker r1 "ss_ticker r", OF k1])
    finally have e2: "exec later (Call_update_markov_state (Some (ss_ticker r)) (Some ''HOT'') reason) d1 =
                Inr (d\<lparr>stock_states := map (\<lambda>x. if ss_ticker x = ss_ticker r then r\<lparr>
                    previous_state := Some ''HOT'',
                    current_state := ''HOT'',
                    last_updated := later,
                    next_update_due := later + minutes 30,
                    promotion_reason := reason,
                    promotion_expires := Some (later + hours 24),
                    consecutive_hot := consecutive_hot r + 2\<rparr>
                  else x) (stock_states d)\<rparr>)"
      by (simp only: r2_def)
    from e1 e2 show "\<exists>d1. exec now (Call_update_markov_state (Some (ss_ticker r)) (Some ''HOT'') reason) d
                  = Inr d1
             \<and> exec later (Call_update_markov_state (Some (ss_ticker r)) (Some ''HOT'') reason) d1 =
                Inr (d\<lparr>stock_states := map (\<lambda>x. if ss_ticker x = ss_ticker r then r\<lparr>
                    previous_state := Some ''HOT'',
                    current_state := ''HOT'',
                    last_updated := later,
                    next_update_due := later + minutes 30,
                    promotion_reason := reason,
                    promotion_expires := Some (later + hours 24),
                    consecutive_hot := consecutive_hot r + 2\<rparr>
                  else x) (stock_states d)\<rparr>)"
      by blast
  }
qed


theorem transition_sets_the_row_witness:
  "reachable aapl_db \<and> aapl_state \<in> set (stock_states aapl_db)
   \<and> ss_ticker aapl_state = ''AAPL'' \<and> consecutive_hot aapl_state = 0
   \<and> exec 1000 (Call_update_markov_state (Some ''AAPL'') (Some ''HOT'')
         (Some ''volume_spike_3x'')) aapl_db =
       Inr (aapl_db\<lparr>stock_states := [aapl_state\<lparr>
          previous_state := Some ''COLD'', current_state := ''HOT'', last_updated := 1000,
          next_update_due := 1800001000, promotion_reason := Some ''volume_spike_3x'',
          promotion_expires := Some 86400001000, consecutive_hot := 1\<rparr>]\<rparr>)
   \<and> exec 2000 (Call_update_markov_state (Some ''AAPL'') (Some ''HOT'')
         (Some ''volume_spike_3x''))
         (aapl_db\<lparr>stock_states := [aapl_state\<lparr>
            previous_state := Some ''COLD'', current_state := ''HOT'', last_updated := 1000,
            next_update_due := 1800001000, promotion_reason := Some ''volume_spike_3x'',
            promotion_expires := Some 86400001000, consecutive_hot := 1\<rparr>]\<rparr>) =
       Inr (aapl_db\<lparr>stock_states := [aapl_state\<lparr>
          previous_state := Some ''HOT'', current_state := ''HOT'', last_updated := 2000,
          next_update_due := 1800002000, promotion_reason := Some ''volume_spike_3x'',
          promotion_expires := Some 86400002000, consecutive_hot := 2\<rparr>]\<rparr>)
   \<and> exec 1000 (Call_update_markov_state (Some ''AAPL'') (Some ''WARM'') None) aapl_db =
       Inr (aapl_db\<lparr>stock_states := [aapl_state\<lparr>
          previous_state := Some ''COLD'', current_state := ''WARM'', last_updated := 1000,
          next_update_due := 7200001000, promotion_reason := None,
          promotion_expires := None, consecutive_hot := 0\<rparr>]\<rparr>)
   \<and> exec 1000 (Call_update_markov_state (Some ''AAPL'') (Some ''TEPID'') None) aapl_db =
       Inl (check_violation ''valid_state'')"
proof -
  have m: "aapl_state \<in> set (stock_states aapl_db)"
    by (simp add: aapl_db_def)
  have v: "ss_ticker aapl_state = ''AAPL''" "consecutive_hot aapl_state = 0"
    "current_state aapl_state = ''COLD''" "stock_states aapl_db = [aapl_state]"
    by (simp_all add: aapl_state_def aapl_db_def)
  note hot = transition_sets_the_row [OF reachable_aapl_db m, of "''HOT''" 1000
        "Some ''volume_spike_3x''" 2000]
  from hot have one: "exec 1000 (Call_update_markov_state (Some ''AAPL'') (Some ''HOT'')
         (Some ''volume_spike_3x'')) aapl_db =
       Inr (aapl_db\<lparr>stock_states := [aapl_state\<lparr>
          previous_state := Some ''COLD'', current_state := ''HOT'', last_updated := 1000,
          next_update_due := 1800001000, promotion_reason := Some ''volume_spike_3x'',
          promotion_expires := Some 86400001000, consecutive_hot := 1\<rparr>]\<rparr>)"
    by (simp add: v minutes_def hours_def)
  from hot obtain d1 where
    "exec 1000 (Call_update_markov_state (Some ''AAPL'') (Some ''HOT'')
         (Some ''volume_spike_3x'')) aapl_db = Inr d1"
    and "exec 2000 (Call_update_markov_state (Some ''AAPL'') (Some ''HOT'')
         (Some ''volume_spike_3x'')) d1 =
       Inr (aapl_db\<lparr>stock_states := [aapl_state\<lparr>
          previous_state := Some ''HOT'', current_state := ''HOT'', last_updated := 2000,
          next_update_due := 1800002000, promotion_reason := Some ''volume_spike_3x'',
          promotion_expires := Some 86400002000, consecutive_hot := 2\<rparr>]\<rparr>)"
    by (auto simp: v minutes_def hours_def)
  with one have two: "exec 2000 (Call_update_markov_state (Some ''AAPL'') (Some ''HOT'')
         (Some ''volume_spike_3x''))
         (aapl_db\<lparr>stock_states := [aapl_state\<lparr>
            previous_state := Some ''COLD'', current_state := ''HOT'', last_updated := 1000,
            next_update_due := 1800001000, promotion_reason := Some ''volume_spike_3x'',
            promotion_expires := Some 86400001000, consecutive_hot := 1\<rparr>]\<rparr>) =
       Inr (aapl_db\<lparr>stock_states := [aapl_state\<lparr>
          previous_state := Some ''HOT'', current_state := ''HOT'', last_updated := 2000,
          next_update_due := 1800002000, promotion_reason := Some ''volume_spike_3x'',
          promotion_expires := Some 86400002000, consecutive_hot := 2\<rparr>]\<rparr>)"
    by simp
  from transition_sets_the_row [OF reachable_aapl_db m, of "''WARM''" 1000 None 2000]
  have warm: "exec 1000 (Call_update_markov_state (Some ''AAPL'') (Some ''WARM'') None) aapl_db =
       Inr (aapl_db\<lparr>stock_states := [aapl_state\<lparr>
          previous_state := Some ''COLD'', current_state := ''WARM'', last_updated := 1000,
          next_update_due := 7200001000, promotion_reason := None,
          promotion_expires := None, consecutive_hot := 0\<rparr>]\<rparr>)"
    by (simp add: v minutes_def hours_def)
  from transition_sets_the_row [OF reachable_aapl_db m, of "''TEPID''" 1000 None 2000]
  have tepid: "exec 1000 (Call_update_markov_state (Some ''AAPL'') (Some ''TEPID'') None) aapl_db =
       Inl (check_violation ''valid_state'')"
    by (simp add: v)
  from one two warm tepid show ?thesis
    using reachable_aapl_db m v(1,2) by blast
qed

text \<open>
  Claim C1, as stated, fails: a transition of an existing row to a state outside the four
  computes the COLD interval and is then refused by \<^verbatim>\<open>valid_state\<close>, so no column
  is set; and a transition to HOT at \<^verbatim>\<open>consecutive_hot = 32767\<close> leaves the range of
  \<^verbatim>\<open>SMALLINT\<close> and is refused as well.
\<close>

theorem unrecognized_state_is_refused:
  "reachable aapl_db \<and> stock_states aapl_db = [aapl_state] \<and> ss_ticker aapl_state = ''AAPL''
   \<and> interval_minutes (Some ''LUKEWARM'') = 360
   \<and> exec 1000 (Call_update_markov_state (Some ''AAPL'') (Some ''LUKEWARM'') None) aapl_db
       = Inl (check_violation ''valid_state'')
   \<and> exec 0 (UpdateStates (\<lambda>r. True)
         (\<lambda>r. r\<lparr>current_state := ''HOT'', consecutive_hot := 32767\<rparr>)) aapl_db = Inr long_hot_db
   \<and> exec 1000 (Call_update_markov_state (Some ''AAPL'') (Some ''HOT'') None) long_hot_db
       = Inl numeric_value_out_of_range"
proof -
  have "exec 1000 (Call_update_markov_state (Some ''AAPL'') (Some ''LUKEWARM'') None) aapl_db
       = Inl (check_violation ''valid_state'')"
    by (simp add: aapl_db_def aapl_state_def update_markov_state_def markov_set_def
        store_state_row_def smallint_ok_def valid_state_def)
  moreover have "exec 0 (UpdateStates (\<lambda>r. True)
         (\<lambda>r. r\<lparr>current_state := ''HOT'', consecutive_hot := 32767\<rparr>)) aapl_db = Inr long_hot_db"
    by (simp add: long_hot_db_def aapl_db_def aapl_state_def aapl_def store_state_row_def
        smallint_ok_def valid_state_def unique_ok_def references_ok_def)
  moreover have "exec 1000 (Call_update_markov_state (Some ''AAPL'') (Some ''HOT'') None) long_hot_db
       = Inl numeric_value_out_of_range"
    by (simp add: long_hot_db_def aapl_db_def aapl_state_def update_markov_state_def
        markov_set_def store_state_row_def smallint_ok_def)
  ultimately show ?thesis
    using reachable_aapl_db
    by (simp add: interval_minutes_def aapl_db_def aapl_state_def)
qed

text \<open>
  Claim C10. \<^verbatim>\<open>update_markov_state\<close> called with a ticker that has no state row, and
  \<^verbatim>\<open>complete_pipeline_run\<close> called with an identifier that has no run row, return
  without an error and leave the store as it was, whatever the other arguments are.
\<close>

theorem absent_row_is_a_silent_no_op:
  "((\<forall>r \<in> set (stock_states d). Some (ss_ticker r) \<noteq> p_ticker) \<longrightarrow>
      exec now (Call_update_markov_state p_ticker p_new_state p_reason) d = Inr d)
   \<and> ((\<forall>r \<in> set (pipeline_runs d). Some (run_id r) \<noteq> p_run_id) \<longrightarrow>
      exec now (Call_complete_pipeline_run p_run_id a) d = Inr d)"
  by (simp add: update_markov_state_def complete_pipeline_run_def update_rows_untouched)

theorem absent_row_is_a_silent_no_op_witness:
  "exec 1000 (Call_update_markov_state (Some ''MSFT'') (Some ''LUKEWARM'') None) aapl_db
     = Inr aapl_db
   \<and> exec 1000 (Call_update_markov_state None (Some ''HOT'') None) aapl_db = Inr aapl_db
   \<and> exec 1000 (Call_complete_pipeline_run (Some 7) no_counts) aapl_db = Inr aapl_db"
proof -
  have "\<forall>r \<in> set (stock_states aapl_db). Some (ss_ticker r) \<noteq> Some ''MSFT''"
    "\<forall>r \<in> set (stock_states aapl_db). Some (ss_ticker r) \<noteq> None"
    "\<forall>r \<in> set (pipeline_runs aapl_db). Some (run_id r) \<noteq> Some 7"
    by (simp_all add: aapl_db_def aapl_state_def)
  then show ?thesis
    using absent_row_is_a_silent_no_op [where d = aapl_db and p_ticker = "Some ''MSFT''"
        and p_run_id = "Some 7" and now = 1000 and p_new_state = "Some ''LUKEWARM''"
        and p_reason = None and a = no_counts]
      absent_row_is_a_silent_no_op [where d = aapl_db and p_ticker = None
        and p_run_id = "Some 7" and now = 1000 and p_new_state = "Some ''HOT''"
        and p_reason = None and a = no_counts]
    by blast
qed

section \<open>Pipeline runs\<close>

lemma exec_complete_one:
  assumes "keys_unique d" and "r \<in> set (pipeline_runs d)"
  shows "exec now (Call_complete_pipeline_run (Some (run_id r)) a) d =
           and_then (complete_set now a r) (\<lambda>r'.
             Inr (d\<lparr>pipeline_runs :=
               map (\<lambda>x. if run_id x = run_id r then r' else x) (pipeline_runs d)\<rparr>))"
proof -
  from assms have "distinct (map run_id (pipeline_runs d))"
    by (simp add: keys_unique_def)
  from update_rows_one [OF this assms(2), of "complete_set now a"] show ?thesis
    by (cases "complete_set now a r") (simp_all add: complete_pipeline_run_def)
qed

lemma complete_set_valid:
  assumes "p_status a = Some s" and "s \<in> set [''running'', ''success'', ''partial'', ''failed'']"
    and "numeric_coerce 8 2 (of_int (now - started_at r) / 1000000) = Inr du"
  shows "complete_set now a r = Inr (r\<lparr>
          finished_at := Some now,
          duration_seconds := Some du,
          status := s,
          markov_tickers_due := p_markov_count a,
          collected_count := p_collected a,
          scored_count := p_scored a,
          states_promoted := p_promoted a,
          states_demoted := p_demoted a,
          api_calls_made := p_api_calls a,
          api_errors := p_api_errors a,
          error_message := p_error_message a,
          error_step := p_error_step a\<rparr>)"
  using assms
  by (simp add: complete_set_def store_run_row_def numeric_coerce_opt_def valid_status_def)

lemma start_pipeline_run_fresh:
  assumes "new_id \<notin> set (map run_id rows)"
  shows "start_pipeline_run now new_id (Some t) rows =
     Inr (new_id, rows @ [\<lparr>run_id = new_id, run_type = t, started_at = now,
              finished_at = None, duration_seconds = None, markov_tickers_due = Some 0,
              collected_count = Some 0, scored_count = Some 0, states_promoted = Some 0,
              states_demoted = Some 0, api_calls_made = Some 0, api_errors = Some 0,
              status = ''running'', error_message = None, error_step = None,
              retry_count = Some 0\<rparr>])"
  using assms
  by (simp add: start_pipeline_run_def store_run_row_def numeric_coerce_opt_def valid_status_def
      insert_unique_def)

text \<open>
  Claim C7, amended. \<^verbatim>\<open>start_pipeline_run\<close> with a fresh identifier appends a run in
  status \<^verbatim>\<open>running\<close> with its defaults; the status of every stored run is one of
  running, success, partial and failed; and \<^verbatim>\<open>complete_pipeline_run\<close> on an existing
  run, whatever its present status, with a status among these four (running included)
  and a duration that fits \<^verbatim>\<open>NUMERIC(8,2)\<close>, sets \<^verbatim>\<open>finished_at\<close>, the duration, the
  status, the seven counters and the two error columns of that run and of no other.
\<close>

theorem run_records_follow_the_schema:
  assumes "reachable d"
  shows "(new_id \<notin> set (map run_id (pipeline_runs d)) \<longrightarrow>
            exec now (Call_start_pipeline_run new_id (Some t)) d =
              Inr (d\<lparr>pipeline_runs := pipeline_runs d @
                [\<lparr>run_id = new_id, run_type = t, started_at = now,
                  finished_at = None, duration_seconds = None, markov_tickers_due = Some 0,
                  collected_count = Some 0, scored_count = Some 0, states_promoted = Some 0,
                  states_demoted = Some 0, api_calls_made = Some 0, api_errors = Some 0,
                  status = ''running'', error_message = None, error_step = None,
                  retry_count = Some 0\<rparr>]\<rparr>))
       \<and> (\<forall>r \<in> set (pipeline_runs d).
            status r \<in> set [''running'', ''success'', ''partial'', ''failed''])
       \<and> (\<forall>r \<in> set (pipeline_runs d). \<forall>s du.
            p_status a = Some s \<and> s \<in> set [''running'', ''success'', ''partial'', ''failed'']
            \<and> numeric_coerce 8 2 (of_int (now - started_at r) / 1000000) = Inr du \<longrightarrow>
            exec now (Call_complete_pipeline_run (Some (run_id r)) a) d =
              Inr (d\<lparr>pipeline_runs := map (\<lambda>x. if run_id x = run_id r then r\<lparr>
                  finished_at := Some now,
                  duration_seconds := Some du,
                  status := s,
                  markov_tickers_due := p_markov_count a,
                  collected_count := p_collected a,
                  scored_count := p_scored a,
                  states_promoted := p_promoted a,
                  states_demoted := p_demoted a,
                  api_calls_made := p_api_calls a,
                  api_errors := p_api_errors a,
                  error_message := p_error_message a,
                  error_step := p_error_step a\<rparr>
                else x) (pipeline_runs d)\<rparr>))"
proof (intro conjI impI ballI allI)
  assume "new_id \<notin> set (map run_id (pipeline_runs d))"
  then show "exec now (Call_start_pipeline_run new_id (Some t)) d =
              Inr (d\<lparr>pipeline_runs := pipeline_runs d @
                [\<lparr>run_id = new_id, run_type = t, started_at = now,
                  finished_at = None, duration_seconds = None, markov_tickers_due = Some 0,
                  collected_count = Some 0, scored_count = Some 0, states_promoted = Some 0,
                  states_demoted = Some 0, api_calls_made = Some 0, api_errors = Some 0,
                  status = ''running'', error_message = None, error_step = None,
                  retry_count = Some 0\<rparr>]\<rparr>)"
    by (simp add: start_pipeline_run_fresh)
next
  fix r assume "r \<in> set (pipeline_runs d)"
  with assms show "status r \<in> set [''running'', ''success'', ''partial'', ''failed'']"
    using reachable_status_ok by (auto simp: status_ok_def valid_status_def)
next
  fix r s du
  assume r: "r \<in> set (pipeline_runs d)"
    and a: "p_status a = Some s \<and> s \<in> set [''running'', ''success'', ''partial'', ''failed'']
            \<and> numeric_coerce 8 2 (of_int (now - started_at r) / 1000000) = Inr du"
  have ku: "keys_unique d"
    using assms by (rule reachable_keys_unique)
  from a show "exec now (Call_complete_pipeline_run (Some (run_id r)) a) d =
              Inr (d\<lparr>pipeline_runs := map (\<lambda>x. if run_id x = run_id r then r\<lparr>
                  finished_at := Some now,
                  duration_seconds := Some du,
                  status := s,
                  markov_tickers_due := p_markov_count a,
                  collected_count := p_collected a,
                  scored_count := p_scored a,
                  states_promoted := p_promoted a,
                  states_demoted := p_demoted a,
                  api_calls_made := p_api_calls a,
                  api_errors := p_api_errors a,
                  error_message := p_error_message a,
                  error_step := p_error_step a\<rparr>
                else x) (pipeline_runs d)\<rparr>)"
    unfolding exec_complete_one [OF ku r]
    by (subst complete_set_valid [of a s now r du]) simp_all
qed


lemma numeric_8_2_values:
  "numeric_coerce 8 2 10 = Inr 10" "numeric_coerce 8 2 20 = Inr 20"
  using numeric_coerce_exact [of 1000 8 2] numeric_coerce_exact [of 2000 8 2]
  by simp_all

lemma start_step:
  "exec 0 (Call_start_pipeline_run 1 (Some ''manual'')) empty_db = Inr started_db"
  by (simp add: start_pipeline_run_fresh empty_db_def started_db_def started_run_def)

lemma reachable_started_db: "reachable started_db"
  using reachable_exec [OF reachable_empty start_step] .

lemma complete_steps:
  "exec 10000000 (Call_complete_pipeline_run (Some 1) no_counts) started_db = Inr succeeded_db"
  "exec 20000000 (Call_complete_pipeline_run (Some 1) collector_failed) succeeded_db
     = Inr failed_db"
  by (simp_all add: complete_pipeline_run_def complete_set_def store_run_row_def
      numeric_coerce_opt_def numeric_8_2_values valid_status_def started_db_def succeeded_db_def
      failed_db_def started_run_def succeeded_run_def failed_run_def no_counts_def
      collector_failed_def empty_db_def)

theorem run_records_follow_the_schema_witness:
  "reachable started_db \<and> started_run \<in> set (pipeline_runs started_db)
   \<and> run_id started_run = 1 \<and> status started_run = ''running''
   \<and> p_status no_counts = Some ''success''
   \<and> numeric_coerce 8 2 (of_int (10000000 - started_at started_run) / 1000000) = Inr 10
   \<and> exec 10000000 (Call_complete_pipeline_run (Some 1) no_counts) started_db =
       Inr (started_db\<lparr>pipeline_runs := [started_run\<lparr>finished_at := Some 10000000,
         duration_seconds := Some 10, status := ''success''\<rparr>]\<rparr>)
   \<and> exec 5 (Call_start_pipeline_run 2 (Some ''daily_full'')) started_db =
       Inr (started_db\<lparr>pipeline_runs := [started_run, started_run\<lparr>run_id := 2,
         run_type := ''daily_full'', started_at := 5\<rparr>]\<rparr>)"
proof -
  have m: "started_run \<in> set (pipeline_runs started_db)"
    "pipeline_runs started_db = [started_run]"
    by (simp_all add: started_db_def)
  have v: "run_id started_run = 1" "status started_run = ''running''"
    "p_status no_counts = Some ''success''"
    "numeric_coerce 8 2 (of_int (10000000 - started_at started_run) / 1000000) = Inr 10"
    "2 \<notin> set (map run_id (pipeline_runs started_db))"
    by (simp_all add: started_run_def started_db_def no_counts_def numeric_8_2_values)
  note t = run_records_follow_the_schema [OF reachable_started_db, where a = no_counts
      and now = 10000000]
  from t m(1) v(3,4)
  have "exec 10000000 (Call_complete_pipeline_run (Some (run_id started_run)) no_counts)
          started_db =
        Inr (started_db\<lparr>pipeline_runs := map (\<lambda>x. if run_id x = run_id started_run
          then started_run\<lparr>
                  finished_at := Some 10000000,
                  duration_seconds := Some 10,
                  status := ''success'',
                  markov_tickers_due := p_markov_count no_counts,
                  collected_count := p_collected no_counts,
                  scored_count := p_scored no_counts,
                  states_promoted := p_promoted no_counts,
                  states_demoted := p_demoted no_counts,
                  api_calls_made := p_api_calls no_counts,
                  api_errors := p_api_errors no_counts,
                  error_message := p_error_message no_counts,
                  error_step := p_error_step no_counts\<rparr>
                else x) (pipeline_runs started_db)\<rparr>)"
    by simp
  then have c: "exec 10000000 (Call_complete_pipeline_run (Some 1) no_counts) started_db =
       Inr (started_db\<lparr>pipeline_runs := [started_run\<lparr>finished_at := Some 10000000,
         duration_seconds := Some 10, status := ''success''\<rparr>]\<rparr>)"
    by (simp add: m(2) v(1) no_counts_def started_run_def)
  from run_records_follow_the_schema [OF reachable_started_db, where new_id = 2 and now = 5
      and t = "''daily_full''"] v(5)
  have "exec 5 (Call_start_pipeline_run 2 (Some ''daily_full'')) started_db =
       Inr (started_db\<lparr>pipeline_runs := [started_run, started_run\<lparr>run_id := 2,
         run_type := ''daily_full'', started_at := 5\<rparr>]\<rparr>)"
    by (simp add: m(2) started_run_def)
  with c show ?thesis
    using reachable_started_db m(1) v by simp
qed

text \<open>
  Claim C7, as stated, fails: nothing limits a run to one transition. A run completed
  with success is completed again as failed; the second call is accepted and overwrites
  the status, the finishing time and the duration.
\<close>

theorem run_completed_twice:
  "exec 0 (Call_start_pipeline_run 1 (Some ''manual'')) empty_db = Inr started_db
   \<and> exec 10000000 (Call_complete_pipeline_run (Some 1) no_counts) started_db
        = Inr succeeded_db
   \<and> exec 20000000 (Call_complete_pipeline_run (Some 1) collector_failed) succeeded_db
        = Inr failed_db
   \<and> pipeline_runs started_db = [started_run] \<and> status started_run = ''running''
   \<and> pipeline_runs succeeded_db = [succeeded_run] \<and> status succeeded_run = ''success''
   \<and> finished_at succeeded_run = Some 10000000
   \<and> pipeline_runs failed_db = [failed_run] \<and> status failed_run = ''failed''
   \<and> finished_at failed_run = Some 20000000"
  using start_step complete_steps
  by (simp add: started_db_def succeeded_db_def failed_db_def started_run_def
      succeeded_run_def failed_run_def)

section \<open>The due listing and the batch\<close>

lemma priority_less_simps [simp]:
  "priority_less None b = False"
  "priority_less (Some x) None = True"
  "priority_less (Some x) (Some y) = (x < y)"
  by (simp_all add: priority_less_def)

lemma due_order_total: "due_order a b \<or> due_order b a"
  by (cases "state_priority (current_state a)"; cases "state_priority (current_state b)")
    (auto simp: due_order_def)

lemma due_order_trans: "due_order a b \<Longrightarrow> due_order b c \<Longrightarrow> due_order a c"
  by (cases "state_priority (current_state a)"; cases "state_priority (current_state b)";
      cases "state_priority (current_state c)")
    (auto simp: due_order_def)

lemma mset_due_insert: "mset (due_insert a rs) = add_mset a (mset rs)"
  by (induction rs) simp_all

lemma mset_due_sort: "mset (due_sort rs) = mset rs"
  by (induction rs) (simp_all add: mset_due_insert)

lemma set_due_insert: "set (due_insert a rs) = insert a (set rs)"
  using mset_due_insert [of a rs] by (metis set_mset_add_mset_insert set_mset_mset)

lemma sorted_due_insert: "sorted_wrt due_order rs \<Longrightarrow> sorted_wrt due_order (due_insert a rs)"
proof (induction rs)
  case Nil
  then show ?case by simp
next
  case (Cons b rs)
  show ?case
  proof (cases "due_order a b")
    case True
    with Cons.prems show ?thesis
      by (auto intro: due_order_trans)
  next
    case False
    then have "due_order b a"
      using due_order_total by blast
    with False Cons show ?thesis
      by (auto simp: set_due_insert)
  qed
qed

lemma sorted_due_sort: "sorted_wrt due_order (due_sort rs)"
  by (induction rs) (simp_all add: sorted_due_insert)

lemma due_listing_exists: "get_tickers_due_for_update d now (due_sort (due_rows d now))"
  by (simp add: get_tickers_due_for_update_def mset_due_sort sorted_due_sort)

lemma set_due_rows:
  "r \<in> set (due_rows d now) \<longleftrightarrow>
     r \<in> set (stock_states d) \<and> (\<exists>t \<in> set (tickers d). t_ticker t = ss_ticker r \<and> is_active t)
     \<and> next_update_due r \<le> now"
  by (auto simp: due_rows_def)

lemma sorted_same_mset_unique:
  assumes "sorted_wrt le xs" and "sorted_wrt le ys" and "mset xs = mset ys"
    and "\<forall>a \<in> set xs. \<forall>b \<in> set xs. le a b \<and> le b a \<longrightarrow> a = b"
  shows "xs = ys"
  using assms
proof (induction xs arbitrary: ys)
  case Nil
  then show ?case by simp
next
  case (Cons a as)
  then obtain b bs where ys: "ys = b # bs"
    by (cases ys) auto
  have sets: "set (a # as) = set (b # bs)"
    using Cons.prems(3) ys by (metis set_mset_mset)
  have "a = b"
  proof (rule ccontr)
    assume ne: "a \<noteq> b"
    with sets have "b \<in> set as" "a \<in> set bs"
      by auto
    with Cons.prems(1,2) ys have "le a b" "le b a"
      by auto
    moreover have "a \<in> set (a # as)" "b \<in> set (a # as)"
      using sets by auto
    ultimately show False
      using Cons.prems(4) ne by blast
  qed
  moreover from this Cons.prems ys have "as = bs"
    by (intro Cons.IH) auto
  ultimately show ?case
    using ys by simp
qed

lemma joined_replicate:
  "concat (map (\<lambda>t. if k = t_ticker t then if q t then [x] else [] else []) ts)
     = replicate (length (filter (\<lambda>t. k = t_ticker t \<and> q t) ts)) x"
  by (induction ts) simp_all

lemma joined_at_most_once:
  assumes "distinct (map t_ticker ts)"
  shows "length (filter (\<lambda>t. k = t_ticker t \<and> q t) ts) \<le> 1"
  using assms
proof (induction ts)
  case Nil
  then show ?case by simp
next
  case (Cons t ts)
  show ?case
  proof (cases "k = t_ticker t")
    case True
    from Cons.prems have "t_ticker t \<notin> t_ticker ` set ts"
      by simp
    then have "filter (\<lambda>u. t_ticker t = t_ticker u \<and> q u) ts = []"
      by (auto simp: filter_empty_conv)
    with True show ?thesis
      by simp
  next
    case False
    with Cons show ?thesis by simp
  qed
qed

lemma distinct_concat_rows:
  assumes "distinct rs" and "\<And>r. distinct (f r) \<and> set (f r) \<subseteq> {r}"
  shows "distinct (concat (map f rs))"
  using assms(1)
proof (induction rs)
  case Nil
  then show ?case by simp
next
  case (Cons r rs)
  have "set (concat (map f rs)) \<subseteq> set rs"
    using assms(2) by auto
  with Cons have "r \<notin> set (concat (map f rs))"
    by auto
  with Cons assms(2) [of r] show ?case
    by auto
qed

lemma distinct_due_rows:
  assumes "keys_unique d"
  shows "distinct (due_rows d now)"
proof -
  from assms have t: "distinct (map t_ticker (tickers d))"
    and s: "distinct (stock_states d)"
    by (auto simp: keys_unique_def dest: distinct_map [THEN iffD1])
  have rep: "distinct (replicate n x) \<and> set (replicate n x) \<subseteq> {x}"
    if "n \<le> 1" for n and x :: state_row
    using that by (cases n) auto
  have "distinct (concat (map (\<lambda>ss. replicate (length (filter
      (\<lambda>t. ss_ticker ss = t_ticker t \<and> (is_active t \<and> next_update_due ss \<le> now))
      (tickers d))) ss) (stock_states d)))"
    by (rule distinct_concat_rows [OF s]) (rule rep, rule joined_at_most_once [OF t])
  then show ?thesis
    unfolding due_rows_def joined_replicate .
qed


lemma state_priority_valid:
  assumes "valid_state r"
  shows "\<exists>p. state_priority (current_state r) = Some p"
  using assms by (auto simp: valid_state_def state_priority_def)

lemma state_priority_inj:
  assumes "valid_state a" and "valid_state b"
    and "state_priority (current_state a) = state_priority (current_state b)"
  shows "current_state a = current_state b"
proof -
  from assms(1) consider "current_state a = ''HOT''" | "current_state a = ''WARM''"
    | "current_state a = ''COLD''" | "current_state a = ''FROZEN''"
    by (auto simp: valid_state_def)
  then show ?thesis
  proof cases
    case 1
    with assms(2,3) show ?thesis
      by (auto simp: valid_state_def state_priority_def)
  next
    case 2
    with assms(2,3) show ?thesis
      by (auto simp: valid_state_def state_priority_def)
  next
    case 3
    with assms(2,3) show ?thesis
      by (auto simp: valid_state_def state_priority_def)
  next
    case 4
    with assms(2,3) show ?thesis
      by (auto simp: valid_state_def state_priority_def)
  qed
qed

lemma due_order_Some:
  assumes "state_priority (current_state a) = Some p"
    and "state_priority (current_state b) = Some q"
  shows "due_order a b \<longleftrightarrow> p < q \<or> (p = q \<and> next_update_due a \<le> next_update_due b)"
  using assms by (simp add: due_order_def)

lemma state_priority_names:
  "state_priority ''HOT'' = Some 1" "state_priority ''WARM'' = Some 2"
  "state_priority ''COLD'' = Some 3" "state_priority ''FROZEN'' = Some 4"
  by (simp_all add: state_priority_def)

lemma due_order_names:
  assumes "valid_state a" and "valid_state b" and "due_order a b"
  shows "(current_state b = ''HOT'' \<longrightarrow> current_state a = ''HOT'')
       \<and> (current_state b = ''WARM'' \<longrightarrow> current_state a \<in> set [''HOT'', ''WARM''])
       \<and> (current_state b = ''COLD'' \<longrightarrow> current_state a \<in> set [''HOT'', ''WARM'', ''COLD''])
       \<and> (current_state a = current_state b \<longrightarrow> next_update_due a \<le> next_update_due b)"
proof -
  from assms(1) have a: "current_state a = ''HOT'' \<or> current_state a = ''WARM''
      \<or> current_state a = ''COLD'' \<or> current_state a = ''FROZEN''"
    by (auto simp: valid_state_def)
  have hot: "current_state a = ''HOT''" if b: "current_state b = ''HOT''"
  proof (rule ccontr)
    assume "current_state a \<noteq> ''HOT''"
    with a consider "current_state a = ''WARM''" | "current_state a = ''COLD''"
      | "current_state a = ''FROZEN''"
      by blast
    then show False
      using assms(3) b by cases (simp_all add: due_order_def state_priority_names)
  qed
  have warm: "current_state a \<in> set [''HOT'', ''WARM'']" if b: "current_state b = ''WARM''"
  proof (rule ccontr)
    assume "current_state a \<notin> set [''HOT'', ''WARM'']"
    with a consider "current_state a = ''COLD''" | "current_state a = ''FROZEN''"
      by auto
    then show False
      using assms(3) b by cases (simp_all add: due_order_def state_priority_names)
  qed
  have cold: "current_state a \<in> set [''HOT'', ''WARM'', ''COLD'']"
    if b: "current_state b = ''COLD''"
  proof (rule ccontr)
    assume "current_state a \<notin> set [''HOT'', ''WARM'', ''COLD'']"
    with a have "current_state a = ''FROZEN''"
      by auto
    then show False
      using assms(3) b by (simp add: due_order_def state_priority_names)
  qed
  have "\<not> priority_less x x" for x
    by (cases x) simp_all
  then have same: "next_update_due a \<le> next_update_due b"
    if "current_state a = current_state b"
    using assms(3) that by (simp add: due_order_def)
  from hot warm cold same show ?thesis
    by blast
qed

lemma due_order_refl: "due_order a a"
  by (simp add: due_order_def)

lemma due_order_same_keys:
  assumes "current_state a = current_state b" and "next_update_due a = next_update_due b"
  shows "due_order a b"
  using assms by (simp add: due_order_def)

lemma sorted_after_swap:
  assumes so: "sorted_wrt due_order rs" and ij: "i < length rs" "j < length rs"
    and tie: "due_order (rs ! i) (rs ! j)" "due_order (rs ! j) (rs ! i)"
  shows "sorted_wrt due_order (rs[i := rs ! j, j := rs ! i])"
proof -
  let ?rs' = "rs[i := rs ! j, j := rs ! i]"
  have same: "due_order (?rs' ! k) (rs ! k) \<and> due_order (rs ! k) (?rs' ! k)" if "k < length rs" for k
    using that ij tie by (cases "k = j"; cases "k = i") (simp_all add: due_order_refl)
  show ?thesis
    unfolding sorted_wrt_iff_nth_less
  proof (intro allI impI)
    fix k l assume kl: "k < l" "l < length ?rs'"
    then have k: "k < length rs" and l: "l < length rs"
      by simp_all
    from so kl have "due_order (rs ! k) (rs ! l)"
      by (simp add: sorted_wrt_iff_nth_less)
    with same [OF k] same [OF l] show "due_order (?rs' ! k) (?rs' ! l)"
      by (blast intro: due_order_trans)
  qed
qed

lemma tie_gives_another_listing:
  assumes g: "get_tickers_due_for_update d now rs"
    and ab: "a \<in> set rs" "b \<in> set rs" "ss_ticker a \<noteq> ss_ticker b"
    and tie: "current_state a = current_state b" "next_update_due a = next_update_due b"
  shows "\<exists>rs'. get_tickers_due_for_update d now rs' \<and> returned_columns rs' \<noteq> returned_columns rs"
proof -
  from ab obtain i j where i: "i < length rs" "rs ! i = a" and j: "j < length rs" "rs ! j = b"
    by (auto simp: in_set_conv_nth)
  with ab(3) have ne: "i \<noteq> j"
    by auto
  let ?rs' = "rs[i := rs ! j, j := rs ! i]"
  from g have m: "mset rs = mset (due_rows d now)" and so: "sorted_wrt due_order rs"
    by (simp_all add: get_tickers_due_for_update_def)
  have t: "due_order (rs ! i) (rs ! j)" "due_order (rs ! j) (rs ! i)"
    using tie i j by (simp_all add: due_order_same_keys)
  have "mset ?rs' = mset rs"
    using mset_swap [OF j(1) i(1)] .
  with m sorted_after_swap [OF so i(1) j(1) t]
  have g': "get_tickers_due_for_update d now ?rs'"
    by (simp add: get_tickers_due_for_update_def)
  have "returned_columns ?rs' ! i = (ss_ticker b, current_state b, last_updated b)"
    using i j ne by (simp add: returned_columns_def)
  moreover have "returned_columns rs ! i = (ss_ticker a, current_state a, last_updated a)"
    using i by (simp add: returned_columns_def)
  ultimately have "returned_columns ?rs' \<noteq> returned_columns rs"
    using ab(3) by (metis prod.inject)
  with g' show ?thesis
    by blast
qed


text \<open>
  Claim C2, amended. For every store and every time now the function has a result, and
  every result lists, each once, exactly the state rows whose ticker is active and whose
  \<^verbatim>\<open>next_update_due\<close> is at most now, every HOT row before every WARM row, every
  WARM row before every COLD row, every COLD row before every FROZEN row and, within one
  state, by \<^verbatim>\<open>next_update_due\<close> ascending. The order of rows that agree in state and
  in \<^verbatim>\<open>next_update_due\<close> is not fixed: the result is the only one if, and only if, no
  two of its rows agree in both; when two do, another result returns the tickers in
  another order.
\<close>

theorem due_listing_is_selected_and_ordered:
  assumes "reachable d"
  shows "get_tickers_due_for_update d now (due_sort (due_rows d now))
       \<and> (\<forall>rs. get_tickers_due_for_update d now rs \<longrightarrow>
            distinct rs
          \<and> (\<forall>r. r \<in> set rs \<longleftrightarrow>
                r \<in> set (stock_states d)
                \<and> (\<exists>t \<in> set (tickers d). t_ticker t = ss_ticker r \<and> is_active t)
                \<and> next_update_due r \<le> now)
          \<and> (\<forall>r \<in> set rs. current_state r \<in> set [''HOT'', ''WARM'', ''COLD'', ''FROZEN''])
          \<and> (\<forall>i j. i < j \<and> j < length rs \<longrightarrow>
                (current_state (rs ! j) = ''HOT'' \<longrightarrow> current_state (rs ! i) = ''HOT'')
              \<and> (current_state (rs ! j) = ''WARM'' \<longrightarrow>
                    current_state (rs ! i) \<in> set [''HOT'', ''WARM''])
              \<and> (current_state (rs ! j) = ''COLD'' \<longrightarrow>
                    current_state (rs ! i) \<in> set [''HOT'', ''WARM'', ''COLD''])
              \<and> (current_state (rs ! i) = current_state (rs ! j) \<longrightarrow>
                    next_update_due (rs ! i) \<le> next_update_due (rs ! j)))
          \<and> (\<forall>i j. i < j \<and> j < length rs \<longrightarrow>
                (\<exists>p q. state_priority (current_state (rs ! i)) = Some p
                     \<and> state_priority (current_state (rs ! j)) = Some q \<and> p \<le> q
                     \<and> (p = q \<longrightarrow> next_update_due (rs ! i) \<le> next_update_due (rs ! j))))
          \<and> (\<forall>rs'. get_tickers_due_for_update d now rs'
                \<and> (\<forall>a \<in> set rs. \<forall>b \<in> set rs. a \<noteq> b \<longrightarrow>
                      \<not> (current_state a = current_state b
                         \<and> next_update_due a = next_update_due b))
                \<longrightarrow> rs' = rs)
          \<and> (\<forall>a \<in> set rs. \<forall>b \<in> set rs.
                a \<noteq> b \<and> current_state a = current_state b
                \<and> next_update_due a = next_update_due b \<longrightarrow>
                (\<exists>rs'. get_tickers_due_for_update d now rs'
                   \<and> returned_columns rs' \<noteq> returned_columns rs)))"
proof (intro conjI allI impI ballI)
  show "get_tickers_due_for_update d now (due_sort (due_rows d now))"
    by (rule due_listing_exists)
next
  fix rs assume g: "get_tickers_due_for_update d now rs"
  then have m: "mset rs = mset (due_rows d now)" and so: "sorted_wrt due_order rs"
    by (simp_all add: get_tickers_due_for_update_def)
  from m have sets: "set rs = set (due_rows d now)"
    by (metis set_mset_mset)
  have valid: "valid_state r" if "r \<in> set rs" for r
    using that sets assms reachable_ranges_ok by (auto simp: set_due_rows ranges_ok_def)
  show "distinct rs"
    using m distinct_due_rows [OF reachable_keys_unique [OF assms]]
    by (metis mset_eq_imp_distinct_iff)
  show "r \<in> set rs \<longleftrightarrow>
          r \<in> set (stock_states d)
          \<and> (\<exists>t \<in> set (tickers d). t_ticker t = ss_ticker r \<and> is_active t)
          \<and> next_update_due r \<le> now" for r
    unfolding sets by (rule set_due_rows)
  show "current_state r \<in> set [''HOT'', ''WARM'', ''COLD'', ''FROZEN'']" if "r \<in> set rs" for r
    using valid [OF that] by (simp add: valid_state_def)
  {
    fix i j assume ij: "i < j \<and> j < length rs"
    then have o: "due_order (rs ! i) (rs ! j)"
      using so by (simp add: sorted_wrt_iff_nth_less)
    from ij have "valid_state (rs ! i)" "valid_state (rs ! j)"
      by (simp_all add: valid)
    from due_order_names [OF this o]
    show "current_state (rs ! j) = ''HOT'' \<Longrightarrow> current_state (rs ! i) = ''HOT''"
      and "current_state (rs ! j) = ''WARM'' \<Longrightarrow>
                    current_state (rs ! i) \<in> set [''HOT'', ''WARM'']"
      and "current_state (rs ! j) = ''COLD'' \<Longrightarrow>
                    current_state (rs ! i) \<in> set [''HOT'', ''WARM'', ''COLD'']"
      and "current_state (rs ! i) = current_state (rs ! j) \<Longrightarrow>
                    next_update_due (rs ! i) \<le> next_update_due (rs ! j)"
      by blast+
  }
  {
    fix i j assume ij: "i < j \<and> j < length rs"
    then have "due_order (rs ! i) (rs ! j)"
      using so by (simp add: sorted_wrt_iff_nth_less)
    moreover obtain p q where "state_priority (current_state (rs ! i)) = Some p"
      "state_priority (current_state (rs ! j)) = Some q"
      using ij state_priority_valid [OF valid, of "rs ! i"]
        state_priority_valid [OF valid, of "rs ! j"] by auto
    ultimately show "\<exists>p q. state_priority (current_state (rs ! i)) = Some p
                     \<and> state_priority (current_state (rs ! j)) = Some q \<and> p \<le> q
                     \<and> (p = q \<longrightarrow> next_update_due (rs ! i) \<le> next_update_due (rs ! j))"
      by (auto simp: due_order_Some)
  }
  {
    fix rs'
    assume a: "get_tickers_due_for_update d now rs'
                \<and> (\<forall>a \<in> set rs. \<forall>b \<in> set rs. a \<noteq> b \<longrightarrow>
                      \<not> (current_state a = current_state b
                         \<and> next_update_due a = next_update_due b))"
    have "\<forall>a \<in> set rs. \<forall>b \<in> set rs. due_order a b \<and> due_order b a \<longrightarrow> a = b"
    proof (intro ballI impI)
      fix a b assume ab: "a \<in> set rs" "b \<in> set rs" "due_order a b \<and> due_order b a"
      obtain p q where pq: "state_priority (current_state a) = Some p"
        "state_priority (current_state b) = Some q"
        using state_priority_valid [OF valid [OF ab(1)]] state_priority_valid [OF valid [OF ab(2)]]
        by auto
      with ab(3) have "p = q" "next_update_due a = next_update_due b"
        by (auto simp: due_order_Some)
      with pq have "current_state a = current_state b"
        using state_priority_inj [OF valid [OF ab(1)] valid [OF ab(2)]] by simp
      with \<open>next_update_due a = next_update_due b\<close> a ab show "a = b"
        by blast
    qed
    moreover from a have "mset rs = mset rs'" "sorted_wrt due_order rs'"
      using m by (simp_all add: get_tickers_due_for_update_def)
    ultimately show "rs' = rs"
      using sorted_same_mset_unique [OF so, of rs'] by simp
  }
  {
    fix a b
    assume ab: "a \<in> set rs" "b \<in> set rs"
      and t: "a \<noteq> b \<and> current_state a = current_state b
                \<and> next_update_due a = next_update_due b"
    have "distinct (map ss_ticker (stock_states d))"
      using reachable_keys_unique [OF assms] by (simp add: keys_unique_def)
    moreover from ab have "a \<in> set (stock_states d)" "b \<in> set (stock_states d)"
      unfolding sets by (simp_all add: set_due_rows)
    ultimately have "ss_ticker a \<noteq> ss_ticker b"
      using t by (auto simp: distinct_map dest: inj_onD)
    moreover from t have "current_state a = current_state b"
      "next_update_due a = next_update_due b"
      by simp_all
    ultimately show "\<exists>rs'. get_tickers_due_for_update d now rs'
                   \<and> returned_columns rs' \<noteq> returned_columns rs"
      using tie_gives_another_listing [OF g ab] by blast
  }
qed



lemma two_db_steps:
  "exec 0 (InsertTicker aapl) empty_db = Inr (empty_db\<lparr>tickers := [aapl]\<rparr>)"
  "exec 0 (InsertTicker msft) (empty_db\<lparr>tickers := [aapl]\<rparr>)
     = Inr (empty_db\<lparr>tickers := [aapl, msft]\<rparr>)"
  "exec 0 (InsertState aapl_state) (empty_db\<lparr>tickers := [aapl, msft]\<rparr>)
     = Inr (empty_db\<lparr>tickers := [aapl, msft], stock_states := [aapl_state]\<rparr>)"
  "exec 0 (InsertState msft_state)
       (empty_db\<lparr>tickers := [aapl, msft], stock_states := [aapl_state]\<rparr>)
     = Inr two_db"
  "exec 0 (InsertState msft_state) (empty_db\<lparr>tickers := [aapl, msft]\<rparr>)
     = Inr (empty_db\<lparr>tickers := [aapl, msft], stock_states := [msft_state]\<rparr>)"
  "exec 0 (InsertState hot_aapl_state)
       (empty_db\<lparr>tickers := [aapl, msft], stock_states := [msft_state]\<rparr>)
     = Inr mixed_db"
  by (simp_all add: store_ticker_row_def valid_tier_def store_state_row_def valid_state_def
      smallint_ok_def insert_unique_def references_ok_def empty_db_def two_db_def mixed_db_def
      aapl_def msft_def aapl_state_def msft_state_def hot_aapl_state_def)

lemma reachable_two_db: "reachable two_db"
  using reachable_exec [OF reachable_exec [OF reachable_exec [OF reachable_exec
    [OF reachable_empty two_db_steps(1)] two_db_steps(2)] two_db_steps(3)] two_db_steps(4)] .

lemma reachable_mixed_db: "reachable mixed_db"
  using reachable_exec [OF reachable_exec [OF reachable_exec [OF reachable_exec
    [OF reachable_empty two_db_steps(1)] two_db_steps(2)] two_db_steps(5)] two_db_steps(6)] .

lemma due_rows_two_db: "due_rows two_db 1000 = [aapl_state, msft_state]"
  by (simp add: due_rows_def two_db_def aapl_def msft_def aapl_state_def msft_state_def)

lemma due_rows_mixed_db: "due_rows mixed_db 1000 = [msft_state, hot_aapl_state]"
  by (simp add: due_rows_def mixed_db_def aapl_def msft_def aapl_state_def msft_state_def
      hot_aapl_state_def)

lemma due_order_examples:
  "due_order aapl_state msft_state" "due_order msft_state aapl_state"
  "due_order hot_aapl_state msft_state" "\<not> due_order msft_state hot_aapl_state"
  by (simp_all add: due_order_def state_priority_def aapl_state_def msft_state_def
      hot_aapl_state_def)

lemma listing_mixed: "get_tickers_due_for_update mixed_db 1000 [hot_aapl_state, msft_state]"
  by (simp add: get_tickers_due_for_update_def due_rows_mixed_db due_order_examples)

lemma reachable_more_tickers:
  assumes "reachable d" and "\<forall>t \<in> set ts. valid_tier t"
    and "distinct (map t_ticker (tickers d @ ts))"
  shows "reachable (d\<lparr>tickers := tickers d @ ts\<rparr>)"
  using assms
proof (induction ts arbitrary: d)
  case Nil
  then show ?case by simp
next
  case (Cons t ts)
  let ?d = "d\<lparr>tickers := tickers d @ [t]\<rparr>"
  from Cons.prems have "exec 0 (InsertTicker t) d = Inr ?d"
    by (auto simp: store_ticker_row_def insert_unique_def)
  with Cons.prems(1) have "reachable ?d"
    by (rule reachable_exec)
  from Cons.IH [OF this] Cons.prems show ?case
    by simp
qed

lemma reachable_more_states:
  assumes "reachable d"
    and "\<forall>r \<in> set rs. valid_state r \<and> smallint_ok (consecutive_hot r)
           \<and> ss_ticker r \<in> set (map t_ticker (tickers d))"
    and "distinct (map ss_ticker (stock_states d @ rs))"
  shows "reachable (d\<lparr>stock_states := stock_states d @ rs\<rparr>)"
  using assms
proof (induction rs arbitrary: d)
  case Nil
  then show ?case by simp
next
  case (Cons r rs)
  let ?d = "d\<lparr>stock_states := stock_states d @ [r]\<rparr>"
  from Cons.prems have "exec 0 (InsertState r) d = Inr ?d"
    by (auto simp: store_state_row_def insert_unique_def references_ok_def)
  with Cons.prems(1) have "reachable ?d"
    by (rule reachable_exec)
  from Cons.IH [OF this] Cons.prems show ?case
    by simp
qed

lemma reachable_six_db: "reachable six_db"
proof -
  have "reachable (empty_db\<lparr>tickers := tickers empty_db @ [aapl, msft, goog, nvda, tsla, meta]\<rparr>)"
    by (rule reachable_more_tickers [OF reachable_empty])
      (simp_all add: empty_db_def valid_tier_def aapl_def msft_def goog_def nvda_def tsla_def
        meta_def)
  then have "reachable (empty_db\<lparr>tickers := [aapl, msft, goog, nvda, tsla, meta]\<rparr>)"
    by (simp add: empty_db_def)
  from reachable_more_states [OF this,
      of "[msft_state, tsla_state, meta_state, nvda_state, hot_aapl_state, goog_state]"]
  show ?thesis
    by (simp add: empty_db_def six_db_def valid_state_def smallint_ok_def aapl_def msft_def
        goog_def nvda_def tsla_def meta_def aapl_state_def msft_state_def goog_state_def
        nvda_state_def tsla_state_def meta_state_def hot_aapl_state_def)
qed

lemma due_rows_six_db:
  "due_rows six_db 1000 = [msft_state, tsla_state, nvda_state, hot_aapl_state, goog_state]"
  by (simp add: due_rows_def six_db_def aapl_def msft_def goog_def nvda_def tsla_def meta_def
      aapl_state_def msft_state_def goog_state_def nvda_state_def tsla_state_def
      meta_state_def hot_aapl_state_def)

lemma six_db_listing_sorted: "sorted_wrt due_order six_db_listing"
  by (simp add: six_db_listing_def due_order_def state_priority_names aapl_state_def
      msft_state_def goog_state_def nvda_state_def tsla_state_def hot_aapl_state_def)

lemma listing_six_db: "get_tickers_due_for_update six_db 1000 six_db_listing"
  using six_db_listing_sorted
  by (simp add: get_tickers_due_for_update_def due_rows_six_db six_db_listing_def)

theorem due_listing_is_selected_and_ordered_witness:
  "reachable six_db
   \<and> get_tickers_due_for_update six_db 1000 six_db_listing
   \<and> due_sort (due_rows six_db 1000) = six_db_listing
   \<and> returned_columns six_db_listing
        = [(''GOOG'', ''HOT'', 0), (''AAPL'', ''HOT'', 0), (''NVDA'', ''WARM'', 0),
           (''MSFT'', ''COLD'', 0), (''TSLA'', ''FROZEN'', 0)]
   \<and> map next_update_due six_db_listing = [200, 500, 300, 0, 100]
   \<and> reachable two_db
   \<and> get_tickers_due_for_update two_db 1000 [aapl_state, msft_state]
   \<and> (\<exists>rs'. get_tickers_due_for_update two_db 1000 rs'
         \<and> returned_columns rs' \<noteq> returned_columns [aapl_state, msft_state])"
proof -
  have ne: "\<forall>a \<in> set six_db_listing. \<forall>b \<in> set six_db_listing.
      a \<noteq> b \<longrightarrow> \<not> (current_state a = current_state b \<and> next_update_due a = next_update_due b)"
    by (simp add: six_db_listing_def hot_aapl_state_def msft_state_def aapl_state_def
        goog_state_def nvda_state_def tsla_state_def)
  from due_listing_is_selected_and_ordered [OF reachable_six_db, of 1000] listing_six_db ne
  have one: "due_sort (due_rows six_db 1000) = six_db_listing"
    by blast
  have two: "get_tickers_due_for_update two_db 1000 [aapl_state, msft_state]"
    by (simp add: get_tickers_due_for_update_def due_rows_two_db due_order_examples)
  have tie: "aapl_state \<in> set [aapl_state, msft_state]" "msft_state \<in> set [aapl_state, msft_state]"
    "aapl_state \<noteq> msft_state \<and> current_state aapl_state = current_state msft_state
       \<and> next_update_due aapl_state = next_update_due msft_state"
    by (simp_all add: aapl_state_def msft_state_def)
  from due_listing_is_selected_and_ordered [OF reachable_two_db, of 1000] two tie
  have other: "\<exists>rs'. get_tickers_due_for_update two_db 1000 rs'
         \<and> returned_columns rs' \<noteq> returned_columns [aapl_state, msft_state]"
    by blast
  have cols: "returned_columns six_db_listing
        = [(''GOOG'', ''HOT'', 0), (''AAPL'', ''HOT'', 0), (''NVDA'', ''WARM'', 0),
           (''MSFT'', ''COLD'', 0), (''TSLA'', ''FROZEN'', 0)]"
    "map next_update_due six_db_listing = [200, 500, 300, 0, 100]"
    by (simp_all add: returned_columns_def six_db_listing_def hot_aapl_state_def msft_state_def
        aapl_state_def goog_state_def nvda_state_def tsla_state_def)
  from one two other cols show ?thesis
    using reachable_six_db reachable_two_db listing_six_db by blast
qed

text \<open>
  Claim C2, as stated, fails in its last part: the \<^verbatim>\<open>ORDER BY\<close> list ends with
  \<^verbatim>\<open>next_update_due\<close> and has no further key. Two tickers in the same state and due
  at the same time may come in either order over the same store.
\<close>

theorem equal_keys_leave_the_order_open:
  "reachable two_db
   \<and> current_state aapl_state = current_state msft_state
   \<and> next_update_due aapl_state = next_update_due msft_state
   \<and> get_tickers_due_for_update two_db 1000 [aapl_state, msft_state]
   \<and> get_tickers_due_for_update two_db 1000 [msft_state, aapl_state]
   \<and> returned_columns [aapl_state, msft_state] = [(''AAPL'', ''COLD'', 0), (''MSFT'', ''COLD'', 0)]
   \<and> returned_columns [msft_state, aapl_state] = [(''MSFT'', ''COLD'', 0), (''AAPL'', ''COLD'', 0)]"
proof -
  have "get_tickers_due_for_update two_db 1000 [aapl_state, msft_state]"
    "get_tickers_due_for_update two_db 1000 [msft_state, aapl_state]"
    by (simp_all add: get_tickers_due_for_update_def due_rows_two_db due_order_examples)
  moreover have "current_state aapl_state = current_state msft_state"
    "next_update_due aapl_state = next_update_due msft_state"
    "returned_columns [aapl_state, msft_state] = [(''AAPL'', ''COLD'', 0), (''MSFT'', ''COLD'', 0)]"
    "returned_columns [msft_state, aapl_state] = [(''MSFT'', ''COLD'', 0), (''AAPL'', ''COLD'', 0)]"
    by (simp_all add: returned_columns_def aapl_state_def msft_state_def)
  ultimately show ?thesis
    using reachable_two_db by blast
qed

text \<open>
  Claim C6. Whatever list of due rows the function returned, \<open>selectBatch\<close> with a
  budget returns at most \<open>budget\<close> of them, namely the first ones of that list; the
  rows beyond the budget are still among the due rows of the store, which is not
  written to.
\<close>

theorem batch_is_a_bounded_prefix:
  assumes "get_tickers_due_for_update d now due"
  shows "length (selectBatch budget due) \<le> budget
       \<and> length (selectBatch budget due) = min budget (length due)
       \<and> prefix (selectBatch budget due) due
       \<and> due = selectBatch budget due @ drop budget due
       \<and> (\<forall>r \<in> set (drop budget due). r \<in> set (due_rows d now))"
proof -
  from assms have "set due = set (due_rows d now)"
    by (metis get_tickers_due_for_update_def set_mset_mset)
  then have "\<forall>r \<in> set (drop budget due). r \<in> set (due_rows d now)"
    by (auto dest: in_set_dropD)
  then show ?thesis
    by (simp add: selectBatch_def take_is_prefix min.commute)
qed

theorem batch_is_a_bounded_prefix_witness:
  "get_tickers_due_for_update mixed_db 1000 [hot_aapl_state, msft_state]
   \<and> selectBatch 1 [hot_aapl_state, msft_state] = [hot_aapl_state]
   \<and> drop 1 [hot_aapl_state, msft_state] = [msft_state]
   \<and> msft_state \<in> set (due_rows mixed_db 1000)
   \<and> selectBatch 0 [hot_aapl_state, msft_state] = []
   \<and> selectBatch 5 [hot_aapl_state, msft_state] = [hot_aapl_state, msft_state]"
proof -
  have "msft_state \<in> set (due_rows mixed_db 1000)"
    using batch_is_a_bounded_prefix [OF listing_mixed, of 1] by simp
  then show ?thesis
    using listing_mixed by (simp add: selectBatch_def)
qed

section \<open>Request pacing\<close>

lemma paced_step:
  assumes "paced p" and "polyFetch_step p e = Some p'"
    and "case e of Begin now later \<Rightarrow> waiting p = [] | Wake t \<Rightarrow> True"
  shows "paced p'"
proof (cases e)
  case (Begin now later)
  with assms(3) have w: "waiting p = []"
    by simp
  show ?thesis
  proof (cases "polyFetch_wait (lastCall p) now > 0")
    case True
    with Begin assms(2) have p': "p' = p\<lparr>waiting := waiting p @
        [now + polyFetch_wait (lastCall p) now]\<rparr>"
      by (simp add: Let_def)
    from True have "now + polyFetch_wait (lastCall p) now = lastCall p + 150"
      by (simp add: polyFetch_wait_def)
    with assms(1) w p' show ?thesis
      by (simp add: paced_def)
  next
    case False
    with Begin assms(2) have p': "p' = p\<lparr>lastCall := now + int later,
        sent := sent p @ [now + int later]\<rparr>"
      by (simp add: Let_def)
    from False have "lastCall p + 150 \<le> now + int later"
      by (simp add: polyFetch_wait_def)
    with assms(1) w p' show ?thesis
      by (fastforce simp: paced_def sorted_wrt_append)
  qed
next
  case (Wake t)
  with assms(2) obtain due rest where d: "waiting p = due # rest" "due \<le> t"
    and p': "p' = p\<lparr>lastCall := t, waiting := rest, sent := sent p @ [t]\<rparr>"
    by (auto split: list.splits if_splits)
  with assms(1) have "rest = []" "lastCall p + 150 \<le> t"
    by (auto simp: paced_def)
  with assms(1) p' show ?thesis
    by (fastforce simp: paced_def sorted_wrt_append)
qed

lemma paced_run:
  assumes "paced p" and "one_at_a_time p es" and "polyFetch_run p es = Some p'"
  shows "paced p'"
  using assms
proof (induction es arbitrary: p)
  case Nil
  then show ?case by simp
next
  case (Cons e es)
  from Cons.prems(2) obtain q where q: "polyFetch_step p e = Some q" "one_at_a_time q es"
    and e: "case e of Begin now later \<Rightarrow> waiting p = [] | Wake t \<Rightarrow> True"
    by (auto split: option.splits)
  from Cons.prems(1) q(1) e have "paced q"
    by (rule paced_step)
  moreover from Cons.prems(3) q(1) have "polyFetch_run q es = Some p'"
    by simp
  ultimately show ?case
    using q(2) by (intro Cons.IH)
qed

lemma spaced_span:
  assumes "sorted_wrt (\<lambda>a b. a + 150 \<le> b) xs" and "\<forall>x \<in> set xs. lo \<le> x \<and> x < hi"
    and "xs \<noteq> []"
  shows "lo + 150 * (int (length xs) - 1) < hi"
  using assms
proof (induction xs arbitrary: lo)
  case Nil
  then show ?case by simp
next
  case (Cons x xs)
  show ?case
  proof (cases "xs = []")
    case True
    with Cons.prems show ?thesis by simp
  next
    case False
    from Cons.prems have "\<forall>y \<in> set xs. lo + 150 \<le> y \<and> y < hi"
      by auto
    with Cons.prems False have "lo + 150 + 150 * (int (length xs) - 1) < hi"
      by (intro Cons.IH) auto
    then show ?thesis
      by simp
  qed
qed

lemma spaced_window:
  assumes "sorted_wrt (\<lambda>a b. a + 150 \<le> b) xs"
  shows "calls_in_window xs t \<le> 400"
proof -
  let ?ys = "filter (\<lambda>s. t \<le> s \<and> s < t + 60000) xs"
  have s: "sorted_wrt (\<lambda>a b. a + 150 \<le> b) ?ys"
    using assms by (rule sorted_wrt_filter)
  show ?thesis
  proof (cases "?ys = []")
    case True
    then show ?thesis by (simp add: calls_in_window_def)
  next
    case False
    have "\<forall>x \<in> set ?ys. t \<le> x \<and> x < t + 60000"
      by simp
    from spaced_span [OF s this False] have "150 * (int (length ?ys) - 1) < 60000"
      by simp
    then show ?thesis
      by (simp add: calls_in_window_def)
  qed
qed

lemma six_in_a_row_run:
  "polyFetch_run fresh six_in_a_row =
     Some \<lparr>lastCall = 1750, waiting = [], sent = [1000, 1150, 1300, 1450, 1600, 1750]\<rparr>"
  "one_at_a_time fresh six_in_a_row"
  by (simp_all add: fresh_def six_in_a_row_def polyFetch_wait_def)

text \<open>
  Claim C8, amended. The one limiter of the module is the variable \<^verbatim>\<open>lastCall\<close>. As
  long as calls do not overlap, each request is sent at least 150 milliseconds after the
  one before it, so that at most 400 requests fall into any window of 60 seconds.
\<close>

theorem calls_one_at_a_time_are_spaced:
  assumes "one_at_a_time fresh es" and "polyFetch_run fresh es = Some p"
  shows "sorted_wrt (\<lambda>a b. a + 150 \<le> b) (sent p) \<and> calls_in_window (sent p) t \<le> 400"
proof -
  have "paced fresh"
    by (simp add: paced_def fresh_def)
  from paced_run [OF this assms] have "sorted_wrt (\<lambda>a b. a + 150 \<le> b) (sent p)"
    by (simp add: paced_def)
  then show ?thesis
    by (simp add: spaced_window)
qed

theorem calls_one_at_a_time_are_spaced_witness:
  "one_at_a_time fresh six_in_a_row
   \<and> polyFetch_run fresh six_in_a_row =
       Some \<lparr>lastCall = 1750, waiting = [], sent = [1000, 1150, 1300, 1450, 1600, 1750]\<rparr>
   \<and> sorted_wrt (\<lambda>a b. a + 150 \<le> b) [1000, 1150, 1300, 1450, 1600, 1750 :: int]
   \<and> calls_in_window [1000, 1150, 1300, 1450, 1600, 1750] 1000 \<le> 400"
  using calls_one_at_a_time_are_spaced [OF six_in_a_row_run(2) six_in_a_row_run(1), of 1000]
    six_in_a_row_run
  by simp

text \<open>
  Claim C8, as stated, fails for the ceiling that the module's own comment names (free
  tier, 5 calls per minute): six calls in a row are all sent within 750 milliseconds.
  And the spacing itself is not kept by calls that overlap: of three calls that begin
  together, two send their requests in the same millisecond.
\<close>

theorem six_calls_within_a_second:
  "polyFetch_run fresh six_in_a_row =
     Some \<lparr>lastCall = 1750, waiting = [], sent = [1000, 1150, 1300, 1450, 1600, 1750]\<rparr>
   \<and> calls_in_window [1000, 1150, 1300, 1450, 1600, 1750] 1000 = 6
   \<and> \<not> calls_in_window [1000, 1150, 1300, 1450, 1600, 1750] 1000 \<le> 5
   \<and> polyFetch_run fresh three_at_once =
       Some \<lparr>lastCall = 1150, waiting = [], sent = [1000, 1150, 1150]\<rparr>"
proof -
  have "polyFetch_run fresh three_at_once =
       Some \<lparr>lastCall = 1150, waiting = [], sent = [1000, 1150, 1150]\<rparr>"
    by (simp add: fresh_def three_at_once_def polyFetch_wait_def)
  then show ?thesis
    by (simp add: six_in_a_row_run calls_in_window_def)
qed

end
